theory Spec2Isabelle
  imports Main
begin

section \<open>prun: data model\<close>

text \<open>
  The program is \<^verbatim>\<open>main.go\<close> of prun: a producer goroutine (\<^verbatim>\<open>readInput\<close>) turns the
  lines of standard input into \<^verbatim>\<open>RunJob\<close>s, worker goroutines (\<^verbatim>\<open>runWorker\<close>, \<^verbatim>\<open>run\<close>)
  substitute each job's argument into a copy of the command line and execute it, and the
  main goroutine counts completion signals until the expected total is reached.

  Go strings are byte sequences: \<open>string\<close> (a \<open>char list\<close>, one \<open>char\<close> per byte).
  Go's \<^verbatim>\<open>int\<close> is modelled at its 64-bit width: \<open>int\<close> with the two's-complement
  wrap-around written out (\<open>go_int\<close>).
\<close>

abbreviation LF :: char where "LF \<equiv> CHR 0x0A"
abbreviation CR :: char where "CR \<equiv> CHR 0x0D"

definition go_int :: "int \<Rightarrow> int" where
  "go_int x = (x + 2 ^ 63) mod 2 ^ 64 - 2 ^ 63"

text \<open>
  Slices of strings live in a store of backing arrays, so that sharing between
  \<^verbatim>\<open>os.Args\<close> and the jobs' \<^verbatim>\<open>CmdData\<close> is visible. \<open>fresh\<close> is the next address
  \<^verbatim>\<open>make\<close> hands out.
\<close>

type_synonym addr = nat

record store =
  arrays :: "addr \<Rightarrow> string list"
  fresh :: addr

text \<open>Channels are handles; the element type is a phantom parameter, as in \<^verbatim>\<open>chan string\<close>
  and \<^verbatim>\<open>chan int\<close>.\<close>

datatype 'a chan = Chan nat

text \<open>\<^verbatim>\<open>type RunJob struct { Arg string; OutChan chan string; DoneChan chan int; CmdData []string }\<close>.
  Every \<^verbatim>\<open>CmdData\<close> slice in the program covers the whole of its backing array, so the
  field holds the array's address.\<close>

record RunJob =
  Arg :: string
  OutChan :: "string chan"
  DoneChan :: "int chan"
  CmdData :: addr

section \<open>Library functions used by the producer\<close>

text \<open>
  \<^verbatim>\<open>strings.TrimSpace\<close> removes leading and trailing white space as Unicode defines it
  (\<^verbatim>\<open>unicode.IsSpace\<close>): it decodes one UTF-8 rune at a time from the front, then from
  the back, and stops at the first rune that is not white space. An invalid or truncated
  sequence decodes to U+FFFD, which is not white space. The white-space runes are
  U+0009..U+000D, U+0020, U+0085, U+00A0, U+1680, U+2000..U+200A, U+2028, U+2029, U+202F,
  U+205F and U+3000; \<open>space_runes\<close> lists their UTF-8 encodings.
\<close>

definition space_runes :: "string list" where
  "space_runes =
    [[CHR 0x09], [CHR 0x0A], [CHR 0x0B], [CHR 0x0C], [CHR 0x0D], [CHR 0x20],
     [CHR 0xC2, CHR 0x85], [CHR 0xC2, CHR 0xA0],
     [CHR 0xE1, CHR 0x9A, CHR 0x80],
     [CHR 0xE2, CHR 0x80, CHR 0x80], [CHR 0xE2, CHR 0x80, CHR 0x81],
     [CHR 0xE2, CHR 0x80, CHR 0x82], [CHR 0xE2, CHR 0x80, CHR 0x83],
     [CHR 0xE2, CHR 0x80, CHR 0x84], [CHR 0xE2, CHR 0x80, CHR 0x85],
     [CHR 0xE2, CHR 0x80, CHR 0x86], [CHR 0xE2, CHR 0x80, CHR 0x87],
     [CHR 0xE2, CHR 0x80, CHR 0x88], [CHR 0xE2, CHR 0x80, CHR 0x89],
     [CHR 0xE2, CHR 0x80, CHR 0x8A],
     [CHR 0xE2, CHR 0x80, CHR 0xA8], [CHR 0xE2, CHR 0x80, CHR 0xA9],
     [CHR 0xE2, CHR 0x80, CHR 0xAF],
     [CHR 0xE2, CHR 0x81, CHR 0x9F],
     [CHR 0xE3, CHR 0x80, CHR 0x80]]"

text \<open>The width in bytes of the white-space rune a string starts with (ends with); 0 when
  its first (last) rune is not white space.\<close>

definition starts_with :: "string \<Rightarrow> string \<Rightarrow> bool" where
  "starts_with s w = (take (length w) s = w)"

definition ends_with :: "string \<Rightarrow> string \<Rightarrow> bool" where
  "ends_with s w = (length w \<le> length s \<and> drop (length s - length w) s = w)"

definition leading_space :: "string \<Rightarrow> nat" where
  "leading_space s = (case find (starts_with s) space_runes of None \<Rightarrow> 0 | Some w \<Rightarrow> length w)"

definition trailing_space :: "string \<Rightarrow> nat" where
  "trailing_space s = (case find (ends_with s) space_runes of None \<Rightarrow> 0 | Some w \<Rightarrow> length w)"

function TrimLeft :: "string \<Rightarrow> string" where
  "TrimLeft s = (if leading_space s = 0 then s else TrimLeft (drop (leading_space s) s))"
  by pat_completeness auto
termination
proof (relation "measure length")
  show "wf (measure length)" by simp
next
  fix s :: string
  assume pos: "leading_space s \<noteq> 0"
  then obtain w where "find (starts_with s) space_runes = Some w" "leading_space s = length w"
    by (auto simp: leading_space_def split: option.splits)
  then have "starts_with s w" by (auto simp: find_Some_iff)
  then have "length (take (length w) s) = length w"
    by (simp add: starts_with_def)
  then have "length w \<le> length s" by simp
  then have "leading_space s \<le> length s"
    using \<open>leading_space s = length w\<close> by simp
  with pos show "(drop (leading_space s) s, s) \<in> measure length" by simp
qed

function TrimRight :: "string \<Rightarrow> string" where
  "TrimRight s =
     (if trailing_space s = 0 then s else TrimRight (take (length s - trailing_space s) s))"
  by pat_completeness auto
termination
proof (relation "measure length")
  show "wf (measure length)" by simp
next
  fix s :: string
  assume pos: "trailing_space s \<noteq> 0"
  then obtain w where "find (ends_with s) space_runes = Some w" "trailing_space s = length w"
    by (auto simp: trailing_space_def split: option.splits)
  then have "ends_with s w" by (auto simp: find_Some_iff)
  then have "length w \<le> length s" by (simp add: ends_with_def)
  then have "trailing_space s \<le> length s"
    using \<open>trailing_space s = length w\<close> by simp
  with pos show "(take (length s - trailing_space s) s, s) \<in> measure length" by simp
qed

declare TrimLeft.simps [simp del] TrimRight.simps [simp del]

definition TrimSpace :: "string \<Rightarrow> string" where
  "TrimSpace s = TrimRight (TrimLeft s)"

text \<open>\<^verbatim>\<open>strings.Replace(s, "\r", "", -1)\<close>: every carriage-return byte is deleted.\<close>

definition Replace_CR :: "string \<Rightarrow> string" where
  "Replace_CR s = filter (\<lambda>c. c \<noteq> CR) s"

section \<open>The producer: \<^verbatim>\<open>readInput\<close>\<close>

text \<open>
  Each \<^verbatim>\<open>os.Stdin.Read(rb)\<close> with the one-byte buffer \<^verbatim>\<open>rb\<close> yields a byte, fails with
  an error other than \<^verbatim>\<open>io.EOF\<close>, or reports \<^verbatim>\<open>io.EOF\<close>. Standard input is the list
  of the results of the successive reads; the end of the list is \<^verbatim>\<open>io.EOF\<close>.
\<close>

datatype read_result = Got char | Failed

text \<open>The two ways \<^verbatim>\<open>readInput\<close> can panic: a failed read (line 148) and
  \<^verbatim>\<open>make([]string, len(os.Args) - 2)\<close> with a negative length (line 159).\<close>

datatype panic = Panic_Read | Panic_MakeSlice

text \<open>What the producer does to the other goroutines, in order: \<^verbatim>\<open>jobChan<- rj\<close> and
  \<^verbatim>\<open>*totalCnt = count\<close>.\<close>

datatype p_effect = Send_Job RunJob | Store_Total int

record producer =
  buffer :: string
  count :: int
  emitted :: "p_effect list"
  mem :: store

text \<open>\<^verbatim>\<open>make([]string, n)\<close> returns a new array of \<open>n\<close> empty strings;
  \<^verbatim>\<open>copy(dst, src)\<close> overwrites the first \<open>min (len dst) (len src)\<close> elements of
  \<open>dst\<close>.\<close>

definition make_slice :: "nat \<Rightarrow> store \<Rightarrow> addr \<times> store" where
  "make_slice n h =
     (fresh h, h\<lparr>arrays := (arrays h)(fresh h := replicate n []), fresh := Suc (fresh h)\<rparr>)"

definition copy_slice :: "addr \<Rightarrow> string list \<Rightarrow> store \<Rightarrow> store" where
  "copy_slice dst src h =
     (let n = min (length (arrays h dst)) (length src)
      in h\<lparr>arrays := (arrays h)(dst := take n src @ drop n (arrays h dst))\<rparr>)"

text \<open>Lines 153 to 164, run when the byte read is a line feed. \<open>args\<close> is the address of
  \<^verbatim>\<open>os.Args\<close>.\<close>

definition submit :: "addr \<Rightarrow> string chan \<Rightarrow> int chan \<Rightarrow> producer \<Rightarrow> panic + producer" where
  "submit args outChan doneChan p =
     (let cnt = go_int (count p + 1);
          arg = Replace_CR (TrimSpace (buffer p))
      in if length (arrays (mem p) args) < 2 then Inl Panic_MakeSlice
         else
           let (a, h1) = make_slice (length (arrays (mem p) args) - 2) (mem p);
               h2 = copy_slice a (drop 2 (arrays h1 args)) h1;
               rj = \<lparr>Arg = arg, OutChan = outChan, DoneChan = doneChan, CmdData = a\<rparr>
           in Inr \<lparr>buffer = [], count = cnt, emitted = emitted p @ [Send_Job rj], mem = h2\<rparr>)"

fun readInput ::
  "addr \<Rightarrow> string chan \<Rightarrow> int chan \<Rightarrow> read_result list \<Rightarrow> producer \<Rightarrow> panic + producer"
where
  "readInput args outChan doneChan [] p =
     Inr (p\<lparr>emitted := emitted p @ [Store_Total (count p)]\<rparr>)"
| "readInput args outChan doneChan (Failed # rs) p = Inl Panic_Read"
| "readInput args outChan doneChan (Got c # rs) p =
     (if c = LF then
        (case submit args outChan doneChan p of
           Inl e \<Rightarrow> Inl e
         | Inr p' \<Rightarrow> readInput args outChan doneChan rs p')
      else readInput args outChan doneChan rs (p\<lparr>buffer := buffer p @ [c]\<rparr>))"

definition producer_init :: "store \<Rightarrow> producer" where
  "producer_init h = \<lparr>buffer = [], count = 0, emitted = [], mem = h\<rparr>"

text \<open>A byte stream made of the complete lines \<open>ls\<close> (each followed by a line feed) and an
  unterminated remainder.\<close>

definition stream_of :: "string list \<Rightarrow> string \<Rightarrow> string" where
  "stream_of ls rest = concat (map (\<lambda>l. l @ [LF]) ls) @ rest"

text \<open>The jobs one expects for the lines \<open>ls\<close> when \<open>a\<close> is the first free address.\<close>

fun expected_jobs :: "string chan \<Rightarrow> int chan \<Rightarrow> addr \<Rightarrow> string list \<Rightarrow> RunJob list" where
  "expected_jobs oc dc a [] = []"
| "expected_jobs oc dc a (l # ls) =
     \<lparr>Arg = Replace_CR (TrimSpace l), OutChan = oc, DoneChan = dc, CmdData = a\<rparr>
       # expected_jobs oc dc (Suc a) ls"

fun jobs_sent :: "p_effect list \<Rightarrow> RunJob list" where
  "jobs_sent [] = []"
| "jobs_sent (Send_Job j # es) = j # jobs_sent es"
| "jobs_sent (Store_Total n # es) = jobs_sent es"

fun totals_stored :: "p_effect list \<Rightarrow> int list" where
  "totals_stored [] = []"
| "totals_stored (Send_Job j # es) = totals_stored es"
| "totals_stored (Store_Total n # es) = n # totals_stored es"

section \<open>The workers: \<^verbatim>\<open>argsToStr\<close>, \<^verbatim>\<open>run\<close>, \<^verbatim>\<open>runWorker\<close>\<close>

text \<open>What a worker does to the outside, in order: starting a subprocess
  (\<^verbatim>\<open>exec.Command(name, args...)\<close> followed by \<^verbatim>\<open>CombinedOutput\<close>), sending a string and
  sending an integer on a channel.\<close>

datatype effect = Spawn string "string list" | Send_Str "string chan" string | Send_Int "int chan" int

text \<open>The operating system, as far as \<^verbatim>\<open>run\<close> sees it: for a program name and its
  arguments, the combined output and the error (\<open>None\<close> for \<^verbatim>\<open>nil\<close>, otherwise the text
  of \<^verbatim>\<open>err.Error()\<close>).\<close>

type_synonym exec_env = "string \<Rightarrow> string list \<Rightarrow> string \<times> string option"

text \<open>The verb \<^verbatim>\<open>%d\<close> of \<^verbatim>\<open>fmt.Sprintf\<close>: an integer in decimal.\<close>

function decimal :: "nat \<Rightarrow> string" where
  "decimal n =
     (if n < 10 then [''0123456789'' ! n]
      else decimal (n div 10) @ [''0123456789'' ! (n mod 10)])"
  by pat_completeness auto
termination
  by (relation "measure id") auto

declare decimal.simps [simp del]

definition format_int :: "int \<Rightarrow> string" where
  "format_int i = (if i < 0 then CHR ''-'' # decimal (nat (- i)) else decimal (nat i))"

text \<open>\<^verbatim>\<open>argsToStr\<close>, lines 98 to 108: the loop over \<^verbatim>\<open>range args\<close> with the buffer as
  accumulator.\<close>

function argsToStr_loop :: "nat \<Rightarrow> string list \<Rightarrow> string \<Rightarrow> string" where
  "argsToStr_loop i args buf =
     (if i < length args then
        (let buf1 = buf @ args ! i;
             buf2 = (if int i < int (length args) - 1 then buf1 @ '' '' else buf1)
         in argsToStr_loop (Suc i) args buf2)
      else buf)"
  by pat_completeness auto
termination
  by (relation "measure (\<lambda>(i, args, buf). length args - i)") auto

declare argsToStr_loop.simps [simp del]

definition argsToStr :: "string list \<Rightarrow> string" where
  "argsToStr args = argsToStr_loop 0 args []"

text \<open>\<^verbatim>\<open>fmt.Sprintf("[%d] %s: %s\n", id, argsToStr(job.CmdData...), x)\<close>; the worker's
  \<^verbatim>\<open>id\<close> is written \<open>wid\<close>.\<close>

definition format_line :: "int \<Rightarrow> string list \<Rightarrow> string \<Rightarrow> string" where
  "format_line wid cmd x = ''['' @ format_int wid @ ''] '' @ argsToStr cmd @ '': '' @ x @ [LF]"

text \<open>Lines 192 to 196 of \<^verbatim>\<open>run\<close>: the loop over \<^verbatim>\<open>range job.CmdData\<close>, writing through
  the slice into its backing array.\<close>

function substitute :: "nat \<Rightarrow> RunJob \<Rightarrow> store \<Rightarrow> store" where
  "substitute i job h =
     (if i < length (arrays h (CmdData job)) then
        substitute (Suc i) job
          (if arrays h (CmdData job) ! i = ''{}''
           then h\<lparr>arrays := (arrays h)(CmdData job := (arrays h (CmdData job))[i := Arg job])\<rparr>
           else h)
      else h)"
  by pat_completeness auto
termination
  by (relation "measure (\<lambda>(i, job, h). length (arrays h (CmdData job)) - i)") auto

declare substitute.simps [simp del]

text \<open>The three places where \<^verbatim>\<open>run\<close> returns: line 183 (empty command), line 188 (empty
  argument) and the end of the function.\<close>

datatype run_exit = Return_NoCmd | Return_NoArg | Return_End

definition run :: "exec_env \<Rightarrow> int \<Rightarrow> RunJob \<Rightarrow> store \<Rightarrow> run_exit \<times> effect list \<times> store" where
  "run sys wid job h =
     (if length (arrays h (CmdData job)) < 1 then
        (Return_NoCmd, [Send_Int (DoneChan job) 0], h)
      else if length (Arg job) < 1 then
        (Return_NoArg, [Send_Int (DoneChan job) 0], h)
      else
        let h' = substitute 0 job h;
            cmd = arrays h' (CmdData job);
            (out, err) = sys (cmd ! 0) (drop 1 cmd)
        in case err of
             Some e \<Rightarrow>
               (Return_End,
                [Spawn (cmd ! 0) (drop 1 cmd),
                 Send_Str (OutChan job) (format_line wid cmd e),
                 Send_Int (DoneChan job) 1], h')
           | None \<Rightarrow>
               (Return_End,
                [Spawn (cmd ! 0) (drop 1 cmd),
                 Send_Str (OutChan job) (format_line wid cmd out),
                 Send_Int (DoneChan job) 0], h'))"

text \<open>One iteration of the loop of \<^verbatim>\<open>runWorker\<close> (lines 214 to 220) for the job received,
  and the loop itself over the jobs the worker receives, in order. \<open>Skipped\<close> is the
  \<^verbatim>\<open>continue\<close> of line 217, \<open>Ran x\<close> a call of \<^verbatim>\<open>run\<close> that returned at \<open>x\<close>.\<close>

datatype handled = Skipped | Ran run_exit

definition handle_job ::
  "exec_env \<Rightarrow> int \<Rightarrow> RunJob \<Rightarrow> store \<Rightarrow> handled \<times> effect list \<times> store" where
  "handle_job sys wid job h =
     (if length (Arg job) < 1 then (Skipped, [Send_Int (DoneChan job) 0], h)
      else (let (x, es, h') = run sys wid job h in (Ran x, es, h')))"

fun runWorker ::
  "exec_env \<Rightarrow> int \<Rightarrow> RunJob list \<Rightarrow> store \<Rightarrow> handled list \<times> effect list \<times> store" where
  "runWorker sys wid [] h = ([], [], h)"
| "runWorker sys wid (job # jobs) h =
     (let (d, es, h1) = handle_job sys wid job h;
          (ds, es', h2) = runWorker sys wid jobs h1
      in (d # ds, es @ es', h2))"

text \<open>Counting the messages of an effect list, per channel.\<close>

fun completions :: "int chan \<Rightarrow> effect list \<Rightarrow> nat" where
  "completions ch [] = 0"
| "completions ch (Send_Int ch' v # es) = (if ch' = ch then 1 else 0) + completions ch es"
| "completions ch (e # es) = completions ch es"

fun outputs :: "string chan \<Rightarrow> effect list \<Rightarrow> nat" where
  "outputs ch [] = 0"
| "outputs ch (Send_Str ch' x # es) = (if ch' = ch then 1 else 0) + outputs ch es"
| "outputs ch (e # es) = outputs ch es"

fun spawns :: "effect list \<Rightarrow> nat" where
  "spawns [] = 0"
| "spawns (Spawn name args # es) = 1 + spawns es"
| "spawns (e # es) = spawns es"

section \<open>The collector: the loop of \<^verbatim>\<open>main\<close>\<close>

text \<open>
  Lines 64 to 93. The main goroutine is either about to evaluate the loop condition
  \<^verbatim>\<open>doneCnt < totalCnt\<close>, or waiting in the \<^verbatim>\<open>select\<close>, or has called \<^verbatim>\<open>os.Exit\<close>.
  \<^verbatim>\<open>totalCnt\<close> is shared with the producer, whose store \<^verbatim>\<open>*totalCnt = count\<close> can fall
  between any two steps of the main goroutine.
\<close>

datatype pc = At_Test | In_Select | Exited int

record collector =
  doneCnt :: int
  errCnt :: int
  totalCnt :: int
  printed :: string
  at :: pc

datatype event = Test | Recv_Done int | Recv_Log string | Total_Stored int

definition collector_init :: collector where
  "collector_init = \<lparr>doneCnt = 0, errCnt = 0, totalCnt = 2147483647, printed = [], at = At_Test\<rparr>"

fun main_step :: "collector \<Rightarrow> event \<Rightarrow> collector option" where
  "main_step c Test =
     (if at c = At_Test then
        Some (if doneCnt c < totalCnt c then c\<lparr>at := In_Select\<rparr> else c\<lparr>at := Exited (errCnt c)\<rparr>)
      else None)"
| "main_step c (Recv_Done val) =
     (if at c = In_Select then
        Some (c\<lparr>errCnt := go_int (errCnt c + val), doneCnt := go_int (doneCnt c + 1), at := At_Test\<rparr>)
      else None)"
| "main_step c (Recv_Log log) =
     (if at c = In_Select then Some (c\<lparr>printed := printed c @ log, at := At_Test\<rparr>) else None)"
| "main_step c (Total_Stored n) =
     (case at c of Exited code \<Rightarrow> None | _ \<Rightarrow> Some (c\<lparr>totalCnt := n\<rparr>))"

fun main_loop :: "collector \<Rightarrow> event list \<Rightarrow> collector option" where
  "main_loop c [] = Some c"
| "main_loop c (e # es) = (case main_step c e of None \<Rightarrow> None | Some c' \<Rightarrow> main_loop c' es)"

fun received :: "event list \<Rightarrow> int list" where
  "received [] = []"
| "received (Recv_Done val # es) = val # received es"
| "received (e # es) = received es"

section \<open>The whole program: producer, workers and collector together\<close>

text \<open>
  The goroutines of \<^verbatim>\<open>main\<close> run interleaved. A state of the program holds the reads
  standard input will still deliver, the producer's local variables together with the
  store (\<open>prod\<close>), whether the producer is still in its loop (\<open>reading\<close>), for each worker
  the effects it has still to perform for the job it holds (the empty list when it waits
  at \<^verbatim>\<open>job := <-jobChan\<close>), and the main goroutine's variables (\<open>main\<close>).

  All three channels are unbuffered (\<^verbatim>\<open>make(chan _, 0)\<close>), so a send and its receive are
  one step of the program:
  \<^item> \<open>Producer i\<close>: the producer runs one iteration of its loop: it reads one byte, or
    reaches \<^verbatim>\<open>io.EOF\<close>, stores the count in \<^verbatim>\<open>totalCnt\<close> and returns. On a line feed it
    submits a job, which the idle worker \<open>i\<close> receives; the worker runs the body of its
    loop up to its first send (the writes to the job's own array included).
  \<^item> \<open>Worker i\<close>: worker \<open>i\<close> performs its next effect. A send needs the main goroutine
    waiting in its \<^verbatim>\<open>select\<close>, on that channel.
  \<^item> \<open>Main\<close>: the main goroutine evaluates its loop condition.
  A step that is not possible in a state (a blocked send, a worker with nothing to do)
  yields \<open>None\<close>; so does every step after \<^verbatim>\<open>os.Exit\<close> and a panic of the producer, which
  end the process. Accesses to \<^verbatim>\<open>totalCnt\<close> are taken to be sequentially consistent.
\<close>

record system =
  stdin :: "read_result list"
  prod :: producer
  reading :: bool
  workers :: "effect list list"
  main :: collector

datatype action = Producer nat | Worker nat | Main

text \<open>One iteration of the loop of \<^verbatim>\<open>readInput\<close> (lines 137 to 173), with the hand-over of
  the job to worker \<open>i\<close>.\<close>

definition producer_step ::
  "exec_env \<Rightarrow> addr \<Rightarrow> string chan \<Rightarrow> int chan \<Rightarrow> nat \<Rightarrow> system \<Rightarrow> system option" where
  "producer_step sys args outChan doneChan i s =
     (if \<not> reading s then None
      else
        (case stdin s of
           [] \<Rightarrow>
             (case main_step (main s) (Total_Stored (count (prod s))) of
                None \<Rightarrow> None
              | Some c \<Rightarrow>
                  Some (s\<lparr>prod := (prod s)\<lparr>emitted := emitted (prod s) @ [Store_Total (count (prod s))]\<rparr>,
                          reading := False, main := c\<rparr>))
         | Failed # rs \<Rightarrow> None
         | Got c # rs \<Rightarrow>
             if c = LF then
               (case submit args outChan doneChan (prod s) of
                  Inl e \<Rightarrow> None
                | Inr p \<Rightarrow>
                    if i < length (workers s) \<and> workers s ! i = [] then
                      (let (d, es, h) = handle_job sys (int i) (last (jobs_sent (emitted p))) (mem p)
                       in Some (s\<lparr>stdin := rs, prod := p\<lparr>mem := h\<rparr>, workers := (workers s)[i := es]\<rparr>))
                    else None)
             else Some (s\<lparr>stdin := rs, prod := (prod s)\<lparr>buffer := buffer (prod s) @ [c]\<rparr>\<rparr>)))"

text \<open>The next effect of worker \<open>i\<close>; the main goroutine receives what is sent on
  \<^verbatim>\<open>outChan\<close> and \<^verbatim>\<open>doneChan\<close>.\<close>

definition worker_step :: "string chan \<Rightarrow> int chan \<Rightarrow> nat \<Rightarrow> system \<Rightarrow> system option" where
  "worker_step outChan doneChan i s =
     (if i < length (workers s) then
        (case workers s ! i of
           [] \<Rightarrow> None
         | Spawn name as # es \<Rightarrow> Some (s\<lparr>workers := (workers s)[i := es]\<rparr>)
         | Send_Str ch x # es \<Rightarrow>
             if ch = outChan then
               (case main_step (main s) (Recv_Log x) of
                  None \<Rightarrow> None
                | Some c \<Rightarrow> Some (s\<lparr>workers := (workers s)[i := es], main := c\<rparr>))
             else None
         | Send_Int ch v # es \<Rightarrow>
             if ch = doneChan then
               (case main_step (main s) (Recv_Done v) of
                  None \<Rightarrow> None
                | Some c \<Rightarrow> Some (s\<lparr>workers := (workers s)[i := es], main := c\<rparr>))
             else None)
      else None)"

definition sys_step ::
  "exec_env \<Rightarrow> addr \<Rightarrow> string chan \<Rightarrow> int chan \<Rightarrow> system \<Rightarrow> action \<Rightarrow> system option" where
  "sys_step sys args outChan doneChan s a =
     (case at (main s) of
        Exited code \<Rightarrow> None
      | _ \<Rightarrow>
        (case a of
           Producer i \<Rightarrow> producer_step sys args outChan doneChan i s
         | Worker i \<Rightarrow> worker_step outChan doneChan i s
         | Main \<Rightarrow>
             (case main_step (main s) Test of None \<Rightarrow> None | Some c \<Rightarrow> Some (s\<lparr>main := c\<rparr>))))"

fun sys_run ::
  "exec_env \<Rightarrow> addr \<Rightarrow> string chan \<Rightarrow> int chan \<Rightarrow> system \<Rightarrow> action list \<Rightarrow> system option" where
  "sys_run sys args outChan doneChan s [] = Some s"
| "sys_run sys args outChan doneChan s (a # as) =
     (case sys_step sys args outChan doneChan s a of
        None \<Rightarrow> None
      | Some s' \<Rightarrow> sys_run sys args outChan doneChan s' as)"

text \<open>The state in which \<^verbatim>\<open>main\<close> enters its loop: \<open>n\<close> workers waiting for a job, the
  producer about to read.\<close>

definition system_init :: "read_result list \<Rightarrow> store \<Rightarrow> nat \<Rightarrow> system" where
  "system_init rs h n =
     \<lparr>stdin = rs, prod = producer_init h, reading = True, workers = replicate n [],
      main = collector_init\<rparr>"

section \<open>Auxiliary definitions for the statements\<close>

text \<open>The jobs \<^verbatim>\<open>readInput\<close> hands to the workers for a given input; none when it panics.\<close>

definition jobs_of_input ::
  "addr \<Rightarrow> string chan \<Rightarrow> int chan \<Rightarrow> read_result list \<Rightarrow> store \<Rightarrow> RunJob list" where
  "jobs_of_input args oc dc rs h =
     (case readInput args oc dc rs (producer_init h) of Inl e \<Rightarrow> [] | Inr p \<Rightarrow> jobs_sent (emitted p))"

text \<open>What \<^verbatim>\<open>readInput\<close> does to the other goroutines for a given input; \<open>None\<close> when it
  panics.\<close>

definition producer_trace ::
  "addr \<Rightarrow> string chan \<Rightarrow> int chan \<Rightarrow> read_result list \<Rightarrow> store \<Rightarrow> p_effect list option" where
  "producer_trace args oc dc rs h =
     (case readInput args oc dc rs (producer_init h) of Inl e \<Rightarrow> None | Inr p \<Rightarrow> Some (emitted p))"

text \<open>The store after \<open>n\<close> jobs have been created: each got a new array holding a copy of
  \<^verbatim>\<open>os.Args[2:]\<close>.\<close>

fun after_jobs :: "addr \<Rightarrow> nat \<Rightarrow> store \<Rightarrow> store" where
  "after_jobs args 0 h = h"
| "after_jobs args (Suc n) h =
     after_jobs args n
       (h\<lparr>arrays := (arrays h)(fresh h := drop 2 (arrays h args)), fresh := Suc (fresh h)\<rparr>)"

text \<open>A command template with every token equal to the placeholder replaced.\<close>

definition subst_tokens :: "string \<Rightarrow> string list \<Rightarrow> string list" where
  "subst_tokens arg tmpl = map (\<lambda>tok. if tok = ''{}'' then arg else tok) tmpl"

text \<open>The argument as the specification words it: the line with a trailing carriage return
  stripped and the surrounding white space trimmed.\<close>

definition spec_argument :: "string \<Rightarrow> string" where
  "spec_argument l = TrimSpace (if l \<noteq> [] \<and> last l = CR then butlast l else l)"

text \<open>The completion signals the workers have still to send, and the invariant of the
  program the collector's properties rest on; \<open>N\<close> bounds the number of jobs.\<close>

definition inflight :: "int chan \<Rightarrow> effect list list \<Rightarrow> nat" where
  "inflight ch ws = sum_list (map (completions ch) ws)"

definition sys_inv :: "int chan \<Rightarrow> int \<Rightarrow> system \<Rightarrow> bool" where
  "sys_inv ch N s \<longleftrightarrow>
     0 \<le> doneCnt (main s) \<and>
     count (prod s) = doneCnt (main s) + int (inflight ch (workers s)) \<and>
     count (prod s) = int (length (jobs_sent (emitted (prod s)))) \<and>
     count (prod s) + int (length (stdin s)) \<le> N \<and>
     (reading s \<longrightarrow> totalCnt (main s) = 2147483647) \<and>
     (\<not> reading s \<longrightarrow> totalCnt (main s) = count (prod s)) \<and>
     (\<forall>code. at (main s) = Exited code \<longrightarrow> totalCnt (main s) \<le> doneCnt (main s))"

definition count_inv :: "system \<Rightarrow> bool" where
  "count_inv s \<longleftrightarrow>
     doneCnt (main s) \<le> totalCnt (main s) \<and>
     (reading s \<and> at (main s) = In_Select \<longrightarrow> doneCnt (main s) < 2147483647) \<and>
     (\<forall>code. at (main s) = Exited code \<longrightarrow> code = errCnt (main s))"

text \<open>The events of the main goroutine in a run of the whole program: which event of the
  collector a step is, and the events of a run in order. \<open>outcomes_ok\<close> says that a worker
  sends only 0 and 1 on a completion channel.\<close>

definition main_event :: "system \<Rightarrow> action \<Rightarrow> event option" where
  "main_event s a =
     (case a of
        Main \<Rightarrow> Some Test
      | Producer i \<Rightarrow> (if stdin s = [] then Some (Total_Stored (count (prod s))) else None)
      | Worker i \<Rightarrow>
          (case workers s ! i of
             Send_Str ch x # es \<Rightarrow> Some (Recv_Log x)
           | Send_Int ch v # es \<Rightarrow> Some (Recv_Done v)
           | _ \<Rightarrow> None))"

fun sys_events ::
  "exec_env \<Rightarrow> addr \<Rightarrow> string chan \<Rightarrow> int chan \<Rightarrow> system \<Rightarrow> action list \<Rightarrow> event list" where
  "sys_events sys args outChan doneChan s [] = []"
| "sys_events sys args outChan doneChan s (a # as) =
     (case sys_step sys args outChan doneChan s a of
        None \<Rightarrow> []
      | Some s' \<Rightarrow>
          (case main_event s a of None \<Rightarrow> [] | Some e \<Rightarrow> [e])
            @ sys_events sys args outChan doneChan s' as)"

fun outcomes_ok :: "effect list \<Rightarrow> bool" where
  "outcomes_ok [] = True"
| "outcomes_ok (Send_Int ch v # es) = ((v = 0 \<or> v = 1) \<and> outcomes_ok es)"
| "outcomes_ok (e # es) = outcomes_ok es"

definition err_inv :: "system \<Rightarrow> bool" where
  "err_inv s \<longleftrightarrow>
     0 \<le> errCnt (main s) \<and> errCnt (main s) \<le> doneCnt (main s) \<and>
     (\<forall>es\<in>set (workers s). outcomes_ok es)"

text \<open>What \<^verbatim>\<open>readInput\<close> emits when started in the middle of the input, and the relation
  between the producer of the whole program and \<^verbatim>\<open>readInput\<close> on the whole input.\<close>

definition trace_from ::
  "addr \<Rightarrow> string chan \<Rightarrow> int chan \<Rightarrow> read_result list \<Rightarrow> producer \<Rightarrow> p_effect list option" where
  "trace_from args oc dc rs p =
     (case readInput args oc dc rs p of Inl e \<Rightarrow> None | Inr p' \<Rightarrow> Some (emitted p'))"

definition refines ::
  "addr \<Rightarrow> string chan \<Rightarrow> int chan \<Rightarrow> read_result list \<Rightarrow> store \<Rightarrow> system \<Rightarrow> bool" where
  "refines args oc dc rs h s \<longleftrightarrow>
     args < fresh (mem (prod s)) \<and>
     (reading s \<longrightarrow> trace_from args oc dc (stdin s) (prod s) = producer_trace args oc dc rs h) \<and>
     (\<not> reading s \<longrightarrow> producer_trace args oc dc rs h = Some (emitted (prod s)))"

text \<open>The state of the program after \<open>k\<close> blank lines have been read and answered, with
  \<open>m\<close> more to come: the input used to drive the collector to its sentinel.\<close>

definition blank_job :: "string chan \<Rightarrow> int chan \<Rightarrow> addr \<Rightarrow> RunJob" where
  "blank_job oc dc a = \<lparr>Arg = [], OutChan = oc, DoneChan = dc, CmdData = a\<rparr>"

definition blank_state ::
  "string chan \<Rightarrow> int chan \<Rightarrow> addr \<Rightarrow> store \<Rightarrow> nat \<Rightarrow> nat \<Rightarrow> nat \<Rightarrow> system" where
  "blank_state oc dc args h w k m =
     \<lparr>stdin = replicate m (Got LF),
      prod = \<lparr>buffer = [], count = int k,
              emitted = map (\<lambda>j. Send_Job (blank_job oc dc (fresh h + j))) [0..<k],
              mem = after_jobs args k h\<rparr>,
      reading = True,
      workers = replicate w [],
      main = collector_init\<lparr>doneCnt := int k\<rparr>\<rparr>"

text \<open>A schedule under which the program runs to its exit: the producer reads one byte; when
  the byte ends a line, worker 0 takes the job and \<open>drain\<close> lets it perform its effects, the
  main goroutine taking every message from a channel before the worker moves on; after the last
  byte the producer stores the total and the main goroutine tests its loop condition. A state
  is \<open>quiet\<close> between two such rounds.\<close>

fun drain :: "nat \<Rightarrow> effect list \<Rightarrow> action list" where
  "drain i [] = []"
| "drain i (Spawn name as # es) = Worker i # drain i es"
| "drain i (e # es) = Main # Worker i # drain i es"

fun schedule ::
  "exec_env \<Rightarrow> addr \<Rightarrow> string chan \<Rightarrow> int chan \<Rightarrow> read_result list \<Rightarrow> producer \<Rightarrow> action list" where
  "schedule sys args oc dc [] p = [Producer 0, Main]"
| "schedule sys args oc dc (Failed # rs) p = []"
| "schedule sys args oc dc (Got c # rs) p =
     (if c = LF then
        (case submit args oc dc p of
           Inl e \<Rightarrow> []
         | Inr p1 \<Rightarrow>
             (case handle_job sys 0 (last (jobs_sent (emitted p1))) (mem p1) of
                (d, es, h) \<Rightarrow>
                  Producer 0 # drain 0 es @ schedule sys args oc dc rs (p1\<lparr>mem := h\<rparr>)))
      else Producer 0 # schedule sys args oc dc rs (p\<lparr>buffer := buffer p @ [c]\<rparr>))"

definition quiet :: "addr \<Rightarrow> system \<Rightarrow> bool" where
  "quiet args s \<longleftrightarrow>
     reading s \<and> (\<forall>w\<in>set (workers s). w = []) \<and> 0 < length (workers s) \<and>
     at (main s) = At_Test \<and> totalCnt (main s) = 2147483647 \<and>
     doneCnt (main s) = count (prod s) \<and> 0 \<le> errCnt (main s) \<and>
     errCnt (main s) \<le> doneCnt (main s) \<and>
     2 \<le> length (arrays (mem (prod s)) args) \<and> args < fresh (mem (prod s))"

text \<open>A small configuration for concrete runs: \<^verbatim>\<open>os.Args\<close> at address 0, job arrays at
  addresses 2 and 3, and an operating system in which \<^verbatim>\<open>false\<close> fails and every other
  program succeeds.\<close>

definition example_store :: store where
  "example_store =
     \<lparr>arrays = (\<lambda>a. [])(0 := [''prun'', ''2'', ''cp'', ''{}'', ''a{}b'', ''{}''],
                          2 := [''cp'', ''{}'', ''a{}b'', ''{}''],
                          3 := [''false'', ''{}'']),
      fresh = 4\<rparr>"

definition failing_store :: store where
  "failing_store = \<lparr>arrays = (\<lambda>a. [])(0 := [''prun'', ''2'', ''false'', ''{}'']), fresh = 2\<rparr>"

definition example_sys :: exec_env where
  "example_sys name args = (if name = ''false'' then ([], Some ''exit status 1'') else (''ok'', None))"

definition example_job :: "string \<Rightarrow> addr \<Rightarrow> RunJob" where
  "example_job arg a = \<lparr>Arg = arg, OutChan = Chan 0, DoneChan = Chan 1, CmdData = a\<rparr>"

section \<open>White space and carriage returns\<close>

text \<open>A carriage return is white space, so \<^verbatim>\<open>strings.TrimSpace\<close> removes one that ends the line
  by itself: the argument as the specification words it is the trimmed line.\<close>

lemma space_runes_last: "w \<in> set space_runes \<Longrightarrow> 2 \<le> length w \<Longrightarrow> last w \<noteq> CR"
  by (auto simp: space_runes_def)

lemma starts_with_snoc_CR:
  assumes "w \<in> set space_runes" "l \<noteq> []"
  shows "starts_with (l @ [CR]) w = starts_with l w"
proof (cases "length w \<le> length l")
  case True
  then show ?thesis by (simp add: starts_with_def)
next
  case False
  then have lt: "length l < length w" by simp
  have "take (length w) l \<noteq> w"
  proof
    assume "take (length w) l = w"
    then have "length (take (length w) l) = length w" by simp
    with lt show False by simp
  qed
  moreover have "take (length w) (l @ [CR]) \<noteq> w"
  proof
    assume eq: "take (length w) (l @ [CR]) = w"
    from lt have "take (length w) (l @ [CR]) = l @ [CR]" by simp
    with eq have w: "w = l @ [CR]" by simp
    then have "2 \<le> length w" "last w = CR" using assms(2) by (cases l; simp)+
    with space_runes_last [OF assms(1)] show False by simp
  qed
  ultimately show ?thesis by (simp add: starts_with_def)
qed

lemma leading_space_snoc_CR: "l \<noteq> [] \<Longrightarrow> leading_space (l @ [CR]) = leading_space l"
proof -
  assume l: "l \<noteq> []"
  have "find (starts_with (l @ [CR])) space_runes = find (starts_with l) space_runes"
    by (rule find_cong) (simp_all add: starts_with_snoc_CR l)
  then show ?thesis by (simp add: leading_space_def)
qed

lemma leading_space_le: "leading_space s \<le> length s"
proof (cases "find (starts_with s) space_runes")
  case None
  then show ?thesis by (simp add: leading_space_def)
next
  case (Some w)
  then have "starts_with s w" by (auto simp: find_Some_iff)
  then have "length (take (length w) s) = length w"
    by (simp add: starts_with_def)
  then have "length w \<le> length s" by simp
  with Some show ?thesis by (simp add: leading_space_def)
qed

lemma TrimLeft_Nil: "TrimLeft [] = []"
  by (simp add: TrimLeft.simps leading_space_def space_runes_def starts_with_def)

lemma TrimLeft_CR: "TrimLeft [CR] = []"
  by (simp add: TrimLeft.simps leading_space_def space_runes_def starts_with_def)

lemma TrimLeft_snoc_CR:
  "TrimLeft (l @ [CR]) = (if TrimLeft l = [] then [] else TrimLeft l @ [CR])"
proof (induction l rule: TrimLeft.induct)
  case (1 s)
  show ?case
  proof (cases "s = []")
    case True
    then show ?thesis by (simp add: TrimLeft_Nil TrimLeft_CR)
  next
    case False
    note ne = False
    have ls: "leading_space (s @ [CR]) = leading_space s"
      by (rule leading_space_snoc_CR [OF ne])
    show ?thesis
    proof (cases "leading_space s = 0")
      case True
      have "TrimLeft s = s" using True by (subst TrimLeft.simps) simp
      moreover have "TrimLeft (s @ [CR]) = s @ [CR]"
        using True ls by (subst TrimLeft.simps) simp
      ultimately show ?thesis using ne by simp
    next
      case False
      have a: "TrimLeft s = TrimLeft (drop (leading_space s) s)"
        using False by (subst TrimLeft.simps) simp
      have "TrimLeft (s @ [CR]) = TrimLeft (drop (leading_space s) (s @ [CR]))"
        using False ls by (subst TrimLeft.simps) simp
      also have "drop (leading_space s) (s @ [CR]) = drop (leading_space s) s @ [CR]"
        using leading_space_le [of s] by simp
      finally have b: "TrimLeft (s @ [CR]) = TrimLeft (drop (leading_space s) s @ [CR])" .
      show ?thesis
        unfolding a b by (rule "1.IH" [OF False])
    qed
  qed
qed

lemma trailing_space_snoc_CR: "trailing_space (s @ [CR]) = 1"
  by (simp add: trailing_space_def space_runes_def ends_with_def)

lemma TrimRight_snoc_CR: "TrimRight (s @ [CR]) = TrimRight s"
  by (subst TrimRight.simps) (simp add: trailing_space_snoc_CR)

lemma TrimRight_Nil: "TrimRight [] = []"
  by (simp add: TrimRight.simps trailing_space_def space_runes_def ends_with_def)

lemma TrimSpace_snoc_CR: "TrimSpace (l @ [CR]) = TrimSpace l"
  by (simp add: TrimSpace_def TrimLeft_snoc_CR TrimRight_snoc_CR TrimRight_Nil)

lemma spec_argument_TrimSpace: "spec_argument l = TrimSpace l"
proof (cases "l \<noteq> [] \<and> last l = CR")
  case True
  then have "l = butlast l @ [CR]" by (metis append_butlast_last_id)
  then have "TrimSpace l = TrimSpace (butlast l)"
    using TrimSpace_snoc_CR [of "butlast l"] by simp
  with True show ?thesis by (simp add: spec_argument_def)
next
  case False
  then show ?thesis by (auto simp: spec_argument_def)
qed

section \<open>The producer creates one job per complete line\<close>

lemma go_int_id: "0 \<le> x \<Longrightarrow> x < 2 ^ 63 \<Longrightarrow> go_int x = x"
  by (simp add: go_int_def)

lemma readInput_line:
  "LF \<notin> set l \<Longrightarrow>
   readInput args oc dc (map Got l @ rs) p = readInput args oc dc rs (p\<lparr>buffer := buffer p @ l\<rparr>)"
  by (induction l arbitrary: p) auto

lemma submit_ok:
  assumes "2 \<le> length (arrays (mem p) args)" "args < fresh (mem p)"
  shows "submit args oc dc p =
     Inr \<lparr>buffer = [], count = go_int (count p + 1),
          emitted = emitted p @ [Send_Job \<lparr>Arg = Replace_CR (TrimSpace (buffer p)), OutChan = oc,
                                          DoneChan = dc, CmdData = fresh (mem p)\<rparr>],
          mem = after_jobs args 1 (mem p)\<rparr>"
  using assms by (simp add: submit_def make_slice_def copy_slice_def Let_def)

lemma fresh_after_jobs: "fresh (after_jobs args n h) = fresh h + n"
  by (induction n arbitrary: h) auto

lemma arrays_after_jobs:
  "args < fresh h \<Longrightarrow>
   arrays (after_jobs args n h) a =
     (if fresh h \<le> a \<and> a < fresh h + n then drop 2 (arrays h args) else arrays h a)"
  by (induction n arbitrary: h) auto

lemma stream_of_Nil: "stream_of [] rest = rest"
  by (simp add: stream_of_def)

lemma stream_of_Cons: "stream_of (l # ls) rest = l @ LF # stream_of ls rest"
  by (simp add: stream_of_def)

lemma readInput_stream:
  assumes "2 \<le> length (arrays (mem p) args)" "args < fresh (mem p)" "buffer p = []"
    "0 \<le> count p" "count p + int (length ls) < 2 ^ 63"
    "\<forall>l\<in>set ls. LF \<notin> set l" "LF \<notin> set rest"
  shows "readInput args oc dc (map Got (stream_of ls rest)) p =
     Inr \<lparr>buffer = rest, count = count p + int (length ls),
          emitted = emitted p @ map Send_Job (expected_jobs oc dc (fresh (mem p)) ls)
                      @ [Store_Total (count p + int (length ls))],
          mem = after_jobs args (length ls) (mem p)\<rparr>"
  using assms
proof (induction ls arbitrary: p)
  case Nil
  then show ?case
    by (simp add: stream_of_Nil readInput_line [where rs = "[]", simplified])
next
  case (Cons l ls)
  let ?p1 = "\<lparr>buffer = [], count = count p + 1,
          emitted = emitted p @ [Send_Job \<lparr>Arg = Replace_CR (TrimSpace l), OutChan = oc,
                                          DoneChan = dc, CmdData = fresh (mem p)\<rparr>],
          mem = after_jobs args 1 (mem p)\<rparr>"
  have nl: "LF \<notin> set l" using Cons.prems by simp
  have cnt: "go_int (count p + 1) = count p + 1"
    using Cons.prems by (intro go_int_id) auto
  have sub: "submit args oc dc (p\<lparr>buffer := buffer p @ l\<rparr>) = Inr ?p1"
    using Cons.prems cnt by (simp add: submit_ok)
  have step: "readInput args oc dc (map Got (stream_of (l # ls) rest)) p =
      readInput args oc dc (map Got (stream_of ls rest)) ?p1"
    using sub by (simp add: stream_of_Cons readInput_line [OF nl])
  have arr: "arrays (mem ?p1) args = arrays (mem p) args"
    using Cons.prems by simp
  have "readInput args oc dc (map Got (stream_of ls rest)) ?p1 =
     Inr \<lparr>buffer = rest, count = count ?p1 + int (length ls),
          emitted = emitted ?p1 @ map Send_Job (expected_jobs oc dc (fresh (mem ?p1)) ls)
                      @ [Store_Total (count ?p1 + int (length ls))],
          mem = after_jobs args (length ls) (mem ?p1)\<rparr>"
  proof (rule Cons.IH)
    show "2 \<le> length (arrays (mem ?p1) args)" using Cons.prems arr by simp
    show "args < fresh (mem ?p1)" using Cons.prems by simp
    show "buffer ?p1 = []" by simp
    show "0 \<le> count ?p1" using Cons.prems by simp
    show "count ?p1 + int (length ls) < 2 ^ 63" using Cons.prems by simp
    show "\<forall>l\<in>set ls. LF \<notin> set l" using Cons.prems by simp
    show "LF \<notin> set rest" using Cons.prems by simp
  qed
  with step show ?case
    by (simp add: add.commute add.left_commute)
qed

lemma jobs_sent_append: "jobs_sent (xs @ ys) = jobs_sent xs @ jobs_sent ys"
  by (induction xs rule: jobs_sent.induct) auto

lemma jobs_sent_map: "jobs_sent (map Send_Job js) = js"
  by (induction js) auto

lemma totals_stored_append: "totals_stored (xs @ ys) = totals_stored xs @ totals_stored ys"
  by (induction xs rule: totals_stored.induct) auto

lemma totals_stored_map: "totals_stored (map Send_Job js) = []"
  by (induction js) auto

lemma length_expected_jobs: "length (expected_jobs oc dc a ls) = length ls"
  by (induction ls arbitrary: a) auto

lemma Arg_expected_jobs:
  "map Arg (expected_jobs oc dc a ls) = map (\<lambda>l. Replace_CR (TrimSpace l)) ls"
  by (induction ls arbitrary: a) auto

lemma stream_decompose:
  "\<exists>ls rest. bs = stream_of ls rest \<and> (\<forall>l\<in>set ls. LF \<notin> set l) \<and> LF \<notin> set rest"
proof (induction bs)
  case Nil
  show ?case by (rule exI [of _ "[]"], rule exI [of _ "[]"]) (simp add: stream_of_def)
next
  case (Cons c bs)
  then obtain ls rest where d: "bs = stream_of ls rest" "\<forall>l\<in>set ls. LF \<notin> set l" "LF \<notin> set rest"
    by blast
  show ?case
  proof (cases "c = LF")
    case True
    with d show ?thesis
      by (intro exI [of _ "[] # ls"] exI [of _ rest]) (simp add: stream_of_def)
  next
    case False
    show ?thesis
    proof (cases ls)
      case Nil
      with d False show ?thesis
        by (intro exI [of _ "[]"] exI [of _ "c # rest"]) (simp add: stream_of_def)
    next
      case (Cons l ls')
      with d False show ?thesis
        by (intro exI [of _ "(c # l) # ls'"] exI [of _ rest]) (simp add: stream_of_def)
    qed
  qed
qed

lemma count_stream_of:
  "\<forall>l\<in>set ls. LF \<notin> set l \<Longrightarrow> LF \<notin> set rest \<Longrightarrow> count_list (stream_of ls rest) LF = length ls"
  by (induction ls) (auto simp: stream_of_def)

lemma submit_Inr_simple:
  assumes "submit args oc dc p = Inr p1" "args < fresh (mem p)"
  shows "p1 = \<lparr>buffer = [], count = go_int (count p + 1),
          emitted = emitted p @ [Send_Job \<lparr>Arg = Replace_CR (TrimSpace (buffer p)), OutChan = oc,
                                          DoneChan = dc, CmdData = fresh (mem p)\<rparr>],
          mem = after_jobs args 1 (mem p)\<rparr>"
  using assms
  by (auto simp: submit_def make_slice_def copy_slice_def Let_def split: if_splits)

lemma readInput_allocates:
  assumes "readInput args oc dc rs p = Inr p'" "args < fresh (mem p)"
  shows "\<exists>js. emitted p' = emitted p @ map Send_Job js @ [Store_Total (count p')] \<and>
              map CmdData js = [fresh (mem p) ..< fresh (mem p')] \<and>
              fresh (mem p) \<le> fresh (mem p') \<and>
              (\<forall>j\<in>set js. OutChan j = oc \<and> DoneChan j = dc) \<and>
              (\<forall>a. arrays (mem p') a =
                 (if fresh (mem p) \<le> a \<and> a < fresh (mem p') then drop 2 (arrays (mem p) args)
                  else arrays (mem p) a))"
  using assms
proof (induction args oc dc rs p arbitrary: p' rule: readInput.induct)
  case (1 args outChan doneChan p)
  then show ?case by (intro exI [of _ "[]"]) auto
next
  case (2 args outChan doneChan rs p)
  then show ?case by simp
next
  case (3 args outChan doneChan c rs p)
  show ?case
  proof (cases "c = LF")
    case False
    let ?p1 = "p\<lparr>buffer := buffer p @ [c]\<rparr>"
    from "3.prems" False have "readInput args outChan doneChan rs ?p1 = Inr p'" by simp
    from "3.IH"(2) [OF False this] "3.prems"(2)
    have "\<exists>js. emitted p' = emitted ?p1 @ map Send_Job js @ [Store_Total (count p')] \<and>
              map CmdData js = [fresh (mem ?p1) ..< fresh (mem p')] \<and>
              fresh (mem ?p1) \<le> fresh (mem p') \<and>
              (\<forall>j\<in>set js. OutChan j = outChan \<and> DoneChan j = doneChan) \<and>
              (\<forall>a. arrays (mem p') a =
                 (if fresh (mem ?p1) \<le> a \<and> a < fresh (mem p') then drop 2 (arrays (mem ?p1) args)
                  else arrays (mem ?p1) a))"
      by simp
    moreover have "mem ?p1 = mem p" "emitted ?p1 = emitted p" by simp_all
    ultimately show ?thesis by (simp only:)
  next
    case True
    with "3.prems" obtain p1 where sub: "submit args outChan doneChan p = Inr p1"
      and rest: "readInput args outChan doneChan rs p1 = Inr p'"
      by (auto split: sum.splits)
    let ?j = "\<lparr>Arg = Replace_CR (TrimSpace (buffer p)), OutChan = outChan,
               DoneChan = doneChan, CmdData = fresh (mem p)\<rparr>"
    have p1: "p1 = \<lparr>buffer = [], count = go_int (count p + 1),
          emitted = emitted p @ [Send_Job ?j], mem = after_jobs args 1 (mem p)\<rparr>"
      by (rule submit_Inr_simple [OF sub "3.prems"(2)])
    have f1: "fresh (mem p1) = Suc (fresh (mem p))" by (simp add: p1)
    have a1: "arrays (mem p1) = (arrays (mem p))(fresh (mem p) := drop 2 (arrays (mem p) args))"
      by (simp add: p1)
    have "args < fresh (mem p1)" using "3.prems"(2) f1 by simp
    from "3.IH"(1) [OF True sub rest this]
    obtain js where js: "emitted p' = emitted p1 @ map Send_Job js @ [Store_Total (count p')]"
      "map CmdData js = [fresh (mem p1) ..< fresh (mem p')]"
      "fresh (mem p1) \<le> fresh (mem p')"
      "\<forall>j\<in>set js. OutChan j = outChan \<and> DoneChan j = doneChan"
      "\<forall>a. arrays (mem p') a =
                 (if fresh (mem p1) \<le> a \<and> a < fresh (mem p') then drop 2 (arrays (mem p1) args)
                  else arrays (mem p1) a)"
      by blast
    have lt: "fresh (mem p) < fresh (mem p')" using js(3) f1 by simp
    have args1: "arrays (mem p1) args = arrays (mem p) args"
      using "3.prems"(2) by (simp add: a1)
    show ?thesis
    proof (intro exI [of _ "?j # js"] conjI)
      show "emitted p' = emitted p @ map Send_Job (?j # js) @ [Store_Total (count p')]"
        using js(1) by (simp add: p1)
      show "map CmdData (?j # js) = [fresh (mem p) ..< fresh (mem p')]"
        using js(2) lt f1 by (simp add: upt_conv_Cons)
      show "fresh (mem p) \<le> fresh (mem p')" using lt by simp
      show "\<forall>j\<in>set (?j # js). OutChan j = outChan \<and> DoneChan j = doneChan"
        using js(4) by simp
      show "\<forall>a. arrays (mem p') a =
                 (if fresh (mem p) \<le> a \<and> a < fresh (mem p') then drop 2 (arrays (mem p) args)
                  else arrays (mem p) a)"
        using js(5) lt "3.prems"(2) by (auto simp: f1 a1 args1)
    qed
  qed
qed

lemma readInput_stream_init:
  assumes "2 \<le> length (arrays h args)" and "args < fresh h"
    and "\<forall>l\<in>set ls. LF \<notin> set l" and "LF \<notin> set rest" and "int (length ls) < 2 ^ 63"
  shows "readInput args oc dc (map Got (stream_of ls rest)) (producer_init h) =
     Inr \<lparr>buffer = rest, count = int (length ls),
          emitted = map Send_Job (expected_jobs oc dc (fresh h) ls) @ [Store_Total (int (length ls))],
          mem = after_jobs args (length ls) h\<rparr>"
proof -
  let ?p = "producer_init h"
  have "readInput args oc dc (map Got (stream_of ls rest)) ?p =
     Inr \<lparr>buffer = rest, count = count ?p + int (length ls),
          emitted = emitted ?p @ map Send_Job (expected_jobs oc dc (fresh (mem ?p)) ls)
                      @ [Store_Total (count ?p + int (length ls))],
          mem = after_jobs args (length ls) (mem ?p)\<rparr>"
    using assms by (intro readInput_stream) (simp_all add: producer_init_def)
  then show ?thesis by (simp add: producer_init_def)
qed

lemma example_store_facts:
  "arrays example_store 0 = [''prun'', ''2'', ''cp'', ''{}'', ''a{}b'', ''{}'']"
  "arrays example_store 2 = [''cp'', ''{}'', ''a{}b'', ''{}'']"
  "arrays example_store 3 = [''false'', ''{}'']"
  "arrays example_store 7 = []"
  "fresh example_store = 4"
  by (simp_all add: example_store_def)

lemma example_trims:
  "Replace_CR (TrimSpace ''a'') = ''a''"
  "Replace_CR (TrimSpace [CHR '' '', CHR ''b'', CHR '' '', CR]) = ''b''"
  by code_simp+

lemma example_arguments:
  "map (\<lambda>l. filter (\<lambda>c. c \<noteq> CR) (TrimSpace l))
     [[CHR ''a'', CR, CHR ''b''], [CHR '' '', CHR ''c'', CHR '' '', CR]] = [''ab'', ''c'']"
  by code_simp

section \<open>What a worker does with one job\<close>

lemma substitute_from:
  "substitute i job h =
     h\<lparr>arrays := (arrays h)(CmdData job :=
          take i (arrays h (CmdData job))
            @ map (\<lambda>tok. if tok = ''{}'' then Arg job else tok) (drop i (arrays h (CmdData job))))\<rparr>"
proof (induction i job h rule: substitute.induct)
  case (1 i job h)
  let ?a = "CmdData job"
  let ?xs = "arrays h ?a"
  let ?f = "\<lambda>tok. if tok = ''{}'' then Arg job else tok"
  let ?h1 = "if ?xs ! i = ''{}'' then h\<lparr>arrays := (arrays h)(?a := ?xs[i := Arg job])\<rparr> else h"
  show ?case
  proof (cases "i < length ?xs")
    case False
    then show ?thesis by (subst substitute.simps) simp
  next
    case True
    note lt = True
    have dr: "drop i ?xs = ?xs ! i # drop (Suc i) ?xs"
      using lt by (simp add: Cons_nth_drop_Suc)
    have step: "substitute i job h = substitute (Suc i) job ?h1"
      using lt by (subst substitute.simps) simp
    have ih: "substitute (Suc i) job ?h1 = ?h1\<lparr>arrays := (arrays ?h1)(?a :=
          take (Suc i) (arrays ?h1 ?a) @ map ?f (drop (Suc i) (arrays ?h1 ?a)))\<rparr>"
      by (rule "1.IH" [OF lt])
    show ?thesis
    proof (cases "?xs ! i = ''{}''")
      case True
      then have h1: "?h1 = h\<lparr>arrays := (arrays h)(?a := ?xs[i := Arg job])\<rparr>"
        by simp
      have tk: "take (Suc i) (?xs[i := Arg job]) = take i ?xs @ [Arg job]"
        using lt by (simp add: take_Suc_conv_app_nth)
      have fin: "?h1\<lparr>arrays := (arrays ?h1)(?a :=
          take (Suc i) (arrays ?h1 ?a) @ map ?f (drop (Suc i) (arrays ?h1 ?a)))\<rparr> =
          h\<lparr>arrays := (arrays h)(?a := take i ?xs @ map ?f (drop i ?xs))\<rparr>"
        using True by (simp add: dr tk)
      show ?thesis by (rule trans [OF step trans [OF ih fin]])
    next
      case False
      then have h1: "?h1 = h" by simp
      have tk: "take (Suc i) ?xs = take i ?xs @ [?xs ! i]"
        using lt by (simp add: take_Suc_conv_app_nth)
      have fin: "?h1\<lparr>arrays := (arrays ?h1)(?a :=
          take (Suc i) (arrays ?h1 ?a) @ map ?f (drop (Suc i) (arrays ?h1 ?a)))\<rparr> =
          h\<lparr>arrays := (arrays h)(?a := take i ?xs @ map ?f (drop i ?xs))\<rparr>"
        using False by (simp add: dr tk)
      show ?thesis by (rule trans [OF step trans [OF ih fin]])
    qed
  qed
qed

lemma substitute_0:
  "substitute 0 job h =
     h\<lparr>arrays := (arrays h)(CmdData job := subst_tokens (Arg job) (arrays h (CmdData job)))\<rparr>"
  by (simp add: substitute_from subst_tokens_def)

lemma run_executes:
  assumes "Arg job \<noteq> []" "arrays h (CmdData job) \<noteq> []"
  shows "run sys wid job h =
     (let cmd = subst_tokens (Arg job) (arrays h (CmdData job));
          h' = h\<lparr>arrays := (arrays h)(CmdData job := cmd)\<rparr>
      in case sys (cmd ! 0) (drop 1 cmd) of
           (out, Some e) \<Rightarrow> (Return_End, [Spawn (cmd ! 0) (drop 1 cmd),
               Send_Str (OutChan job) (format_line wid cmd e), Send_Int (DoneChan job) 1], h')
         | (out, None) \<Rightarrow> (Return_End, [Spawn (cmd ! 0) (drop 1 cmd),
               Send_Str (OutChan job) (format_line wid cmd out), Send_Int (DoneChan job) 0], h'))"
  using assms
  by (simp add: run_def substitute_0 Let_def split: prod.splits option.splits)

lemma handle_job_executes:
  assumes "Arg job \<noteq> []" "arrays h (CmdData job) \<noteq> []"
  shows "handle_job sys wid job h =
     (let cmd = subst_tokens (Arg job) (arrays h (CmdData job));
          h' = h\<lparr>arrays := (arrays h)(CmdData job := cmd)\<rparr>
      in case sys (cmd ! 0) (drop 1 cmd) of
           (out, Some e) \<Rightarrow> (Ran Return_End, [Spawn (cmd ! 0) (drop 1 cmd),
               Send_Str (OutChan job) (format_line wid cmd e), Send_Int (DoneChan job) 1], h')
         | (out, None) \<Rightarrow> (Ran Return_End, [Spawn (cmd ! 0) (drop 1 cmd),
               Send_Str (OutChan job) (format_line wid cmd out), Send_Int (DoneChan job) 0], h'))"
  using assms
  by (simp add: handle_job_def run_executes Let_def split: prod.splits option.splits)

lemma handle_job_noop:
  assumes "Arg job = [] \<or> arrays h (CmdData job) = []"
  shows "snd (handle_job sys wid job h) = ([Send_Int (DoneChan job) 0], h)"
  using assms by (auto simp: handle_job_def run_def)

lemma handle_job_effects:
  "\<exists>h'. handle_job sys wid job h = (Skipped, [Send_Int (DoneChan job) 0], h') \<and> Arg job = [] \<or>
        handle_job sys wid job h = (Ran Return_NoCmd, [Send_Int (DoneChan job) 0], h') \<and>
          Arg job \<noteq> [] \<and> arrays h (CmdData job) = [] \<or>
        (\<exists>name args line val.
           handle_job sys wid job h =
             (Ran Return_End, [Spawn name args, Send_Str (OutChan job) line, Send_Int (DoneChan job) val], h') \<and>
           Arg job \<noteq> [] \<and> arrays h (CmdData job) \<noteq> [] \<and> (val = 0 \<or> val = 1))"
proof (cases "Arg job = []")
  case True
  then show ?thesis by (simp add: handle_job_def)
next
  case False
  note arg = False
  show ?thesis
  proof (cases "arrays h (CmdData job) = []")
    case True
    with arg show ?thesis by (simp add: handle_job_def run_def)
  next
    case False
    with arg show ?thesis
      by (auto simp: handle_job_executes Let_def split: prod.splits option.splits)
  qed
qed

text \<open>C5 as stated fails for a blank line.\<close>


lemma runWorker_handled:
  "runWorker sys wid jobs h = (ds, es, h') \<Longrightarrow>
   length ds = length jobs \<and>
   (\<forall>i<length jobs. (ds ! i = Skipped \<longleftrightarrow> Arg (jobs ! i) = []) \<and> ds ! i \<noteq> Ran Return_NoArg)"
proof (induction jobs arbitrary: h ds es h')
  case Nil
  then show ?case by simp
next
  case (Cons job jobs)
  obtain d es1 h1 where hj: "handle_job sys wid job h = (d, es1, h1)"
    by (cases "handle_job sys wid job h") auto
  obtain ds2 es2 h2 where rw: "runWorker sys wid jobs h1 = (ds2, es2, h2)"
    by (cases "runWorker sys wid jobs h1") auto
  from Cons.prems hj rw have ds: "ds = d # ds2" by simp
  have d: "(d = Skipped \<longleftrightarrow> Arg job = []) \<and> d \<noteq> Ran Return_NoArg"
    using handle_job_effects [of sys wid job h] hj by auto
  from Cons.IH [OF rw] have ih: "length ds2 = length jobs"
    "\<forall>i<length jobs. (ds2 ! i = Skipped \<longleftrightarrow> Arg (jobs ! i) = []) \<and> ds2 ! i \<noteq> Ran Return_NoArg"
    by auto
  show ?case
  proof (intro conjI allI impI)
    show "length ds = length (job # jobs)" using ds ih by simp
  next
    fix i assume "i < length (job # jobs)"
    then show "(ds ! i = Skipped) = (Arg ((job # jobs) ! i) = [])"
      using ds d ih by (cases i) auto
  next
    fix i assume "i < length (job # jobs)"
    then show "ds ! i \<noteq> Ran Return_NoArg"
      using ds d ih by (cases i) auto
  qed
qed



lemma handle_job_frame:
  assumes "a \<noteq> CmdData job"
  shows "arrays (snd (snd (handle_job sys wid job h))) a = arrays h a"
proof (cases "Arg job = [] \<or> arrays h (CmdData job) = []")
  case True
  then show ?thesis by (simp add: handle_job_noop)
next
  case False
  then show ?thesis
    using assms
    by (simp add: handle_job_executes Let_def split: prod.splits option.splits)
qed

lemma runWorker_frame:
  "\<forall>job\<in>set jobs. CmdData job \<noteq> a \<Longrightarrow>
   arrays (snd (snd (runWorker sys wid jobs h))) a = arrays h a"
proof (induction jobs arbitrary: h)
  case Nil
  then show ?case by simp
next
  case (Cons job jobs)
  obtain d es1 h1 where hj: "handle_job sys wid job h = (d, es1, h1)"
    by (cases "handle_job sys wid job h") auto
  have "arrays h1 a = arrays h a"
    using handle_job_frame [of a job sys wid h] hj Cons.prems by auto
  moreover have "arrays (snd (snd (runWorker sys wid jobs h1))) a = arrays h1 a"
    using Cons by simp
  ultimately show ?case
    using hj by (cases "runWorker sys wid jobs h1") simp
qed

lemma example_job_facts:
  "Arg (example_job arg a) = arg" "OutChan (example_job arg a) = Chan 0"
  "DoneChan (example_job arg a) = Chan 1" "CmdData (example_job arg a) = a"
  by (simp_all add: example_job_def)

lemma example_error_line:
  "''['' @ format_int 3 @ ''] '' @ argsToStr [''false'', ''x''] @ '': '' @ ''exit status 1'' @ [LF]
     = ''[3] false x: exit status 1'' @ [LF]"
  by code_simp

section \<open>The collector's counters\<close>

lemma main_loop_append:
  "main_loop c (xs @ ys) = (case main_loop c xs of None \<Rightarrow> None | Some c' \<Rightarrow> main_loop c' ys)"
  by (induction xs arbitrary: c) (auto split: option.splits)

lemma main_step_cases:
  assumes "main_step c e = Some c'"
  obtains
    (test_go) "e = Test" "at c = At_Test" "doneCnt c < totalCnt c" "c' = c\<lparr>at := In_Select\<rparr>"
  | (test_exit) "e = Test" "at c = At_Test" "\<not> doneCnt c < totalCnt c" "c' = c\<lparr>at := Exited (errCnt c)\<rparr>"
  | (recv_done) val where "e = Recv_Done val" "at c = In_Select"
      "c' = c\<lparr>errCnt := go_int (errCnt c + val), doneCnt := go_int (doneCnt c + 1), at := At_Test\<rparr>"
  | (recv_log) log where "e = Recv_Log log" "at c = In_Select"
      "c' = c\<lparr>printed := printed c @ log, at := At_Test\<rparr>"
  | (total) n where "e = Total_Stored n" "\<forall>code. at c \<noteq> Exited code" "c' = c\<lparr>totalCnt := n\<rparr>"
  using assms by (cases e) (auto split: if_splits pc.splits)

text \<open>The counters after a run of the loop, as long as they stay below \<open>2 ^ 63\<close>.\<close>

lemma main_loop_counts:
  assumes "main_loop c es = Some c'"
    and "0 \<le> doneCnt c" "0 \<le> errCnt c"
    and "\<forall>v\<in>set (received es). v = 0 \<or> v = 1"
    and "doneCnt c + int (length (received es)) < 2 ^ 63"
    and "errCnt c \<le> doneCnt c"
  shows "doneCnt c' = doneCnt c + int (length (received es)) \<and>
         errCnt c' = errCnt c + sum_list (received es)"
  using assms
proof (induction es arbitrary: c)
  case Nil
  then show ?case by simp
next
  case (Cons e es)
  from Cons.prems(1) obtain c1 where s: "main_step c e = Some c1" and r: "main_loop c1 es = Some c'"
    by (auto split: option.splits)
  from s show ?case
  proof (cases rule: main_step_cases)
    case (recv_done val)
    have v: "val = 0 \<or> val = 1" using Cons.prems(4) recv_done(1) by simp
    have d: "go_int (doneCnt c + 1) = doneCnt c + 1"
      using Cons.prems recv_done(1) by (intro go_int_id) auto
    have e: "go_int (errCnt c + val) = errCnt c + val"
      using Cons.prems recv_done(1) v by (intro go_int_id) auto
    have "doneCnt c' = doneCnt c1 + int (length (received es)) \<and>
         errCnt c' = errCnt c1 + sum_list (received es)"
      using Cons.prems recv_done v d e by (intro Cons.IH [OF r]) auto
    then show ?thesis using recv_done d e by simp
  next
    case test_go
    have "doneCnt c' = doneCnt c1 + int (length (received es)) \<and>
         errCnt c' = errCnt c1 + sum_list (received es)"
      using Cons.prems test_go by (intro Cons.IH [OF r]) auto
    then show ?thesis using test_go by simp
  next
    case test_exit
    have "doneCnt c' = doneCnt c1 + int (length (received es)) \<and>
         errCnt c' = errCnt c1 + sum_list (received es)"
      using Cons.prems test_exit by (intro Cons.IH [OF r]) auto
    then show ?thesis using test_exit by simp
  next
    case (recv_log log)
    have "doneCnt c' = doneCnt c1 + int (length (received es)) \<and>
         errCnt c' = errCnt c1 + sum_list (received es)"
      using Cons.prems recv_log by (intro Cons.IH [OF r]) auto
    then show ?thesis using recv_log by simp
  next
    case (total n)
    have "doneCnt c' = doneCnt c1 + int (length (received es)) \<and>
         errCnt c' = errCnt c1 + sum_list (received es)"
      using Cons.prems total by (intro Cons.IH [OF r]) auto
    then show ?thesis using total by simp
  qed
qed

text \<open>The status passed to \<^verbatim>\<open>os.Exit\<close> is the value of \<^verbatim>\<open>errCnt\<close> at the last test.\<close>

lemma main_loop_exit_code:
  assumes "main_loop c es = Some c'" "at c' = Exited code" "\<forall>code. at c \<noteq> Exited code"
  shows "code = errCnt c' \<and> totalCnt c' \<le> doneCnt c'"
  using assms
proof (induction es arbitrary: c)
  case Nil
  then show ?case by simp
next
  case (Cons e es)
  from Cons.prems(1) obtain c1 where s: "main_step c e = Some c1" and r: "main_loop c1 es = Some c'"
    by (auto split: option.splits)
  show ?case
  proof (cases "\<exists>code. at c1 = Exited code")
    case False
    then show ?thesis using Cons.IH [OF r Cons.prems(2)] by simp
  next
    case True
    then obtain k where k: "at c1 = Exited k" by blast
    have stuck: "es = []"
    proof (cases es)
      case Nil then show ?thesis .
    next
      case (Cons e' es')
      have "main_step c1 e' = None" using k by (cases e') auto
      with r Cons show ?thesis by simp
    qed
    with r have "c' = c1" by simp
    from s show ?thesis
    proof (cases rule: main_step_cases)
      case test_exit
      then show ?thesis using \<open>c' = c1\<close> Cons.prems(2) by auto
    qed (use k Cons.prems(3) in auto)
  qed
qed

lemma sum_list_01: "\<forall>v\<in>set vs. v = 0 \<or> v = (1::int) \<Longrightarrow> sum_list vs = int (count_list vs 1)"
  by (induction vs) auto

lemma sum_list_zeros: "\<forall>v\<in>set vs. v = (0::int) \<Longrightarrow> sum_list vs = 0"
  by (induction vs) auto

text \<open>For the loop alone, whatever is sent to it: the status passed to \<^verbatim>\<open>os.Exit\<close> is the
  sum of the values received.\<close>

lemma main_loop_exit_status:
  assumes "main_loop collector_init es = Some c" and "at c = Exited code"
    and "\<forall>v\<in>set (received es). v = 0 \<or> v = 1" and "int (length (received es)) < 2 ^ 63"
  shows "code = sum_list (received es) \<and> code = int (count_list (received es) 1) \<and>
         ((\<forall>v\<in>set (received es). v = 0) \<longrightarrow> code = 0)"
proof -
  have "doneCnt c = doneCnt collector_init + int (length (received es)) \<and>
         errCnt c = errCnt collector_init + sum_list (received es)"
    using assms by (intro main_loop_counts) (auto simp: collector_init_def)
  then have e: "errCnt c = sum_list (received es)" by (simp add: collector_init_def)
  have "code = errCnt c"
    using main_loop_exit_code [OF assms(1,2)] by (simp add: collector_init_def)
  with e have code: "code = sum_list (received es)" by simp
  moreover have "sum_list (received es) = int (count_list (received es) 1)"
    using assms(3) by (rule sum_list_01)
  moreover have "(\<forall>v\<in>set (received es). v = 0) \<longrightarrow> sum_list (received es) = 0"
    by (simp add: sum_list_zeros)
  ultimately show ?thesis by simp
qed

section \<open>The invariant of the whole program\<close>

lemma inflight_update:
  "i < length ws \<Longrightarrow>
   inflight ch (ws[i := es]) + completions ch (ws ! i) = inflight ch ws + completions ch es"
  unfolding inflight_def
proof (induction ws arbitrary: i)
  case Nil
  then show ?case by simp
next
  case (Cons w ws)
  then show ?case by (cases i) auto
qed

lemma inflight_replicate: "inflight ch (replicate n []) = 0"
  by (induction n) (auto simp: inflight_def)

lemma submit_Inr_fields:
  assumes "submit args oc dc p = Inr p'"
  shows "count p' = go_int (count p + 1) \<and>
         (\<exists>rj. emitted p' = emitted p @ [Send_Job rj] \<and> OutChan rj = oc \<and> DoneChan rj = dc)"
  using assms
  by (auto simp: submit_def make_slice_def copy_slice_def Let_def split: if_splits)

lemma completions_handle_job:
  "handle_job sys wid job h = (d, es, h') \<Longrightarrow> completions (DoneChan job) es = 1"
  using handle_job_effects [of sys wid job h] by auto

lemma main_step_inv:
  assumes "main_step c Test = Some c'"
  shows "doneCnt c' = doneCnt c \<and> totalCnt c' = totalCnt c \<and> errCnt c' = errCnt c \<and>
         (\<forall>code. at c' = Exited code \<longrightarrow> totalCnt c \<le> doneCnt c)"
  using assms by (cases rule: main_step_cases) auto

lemma sys_step_inv:
  assumes step: "sys_step sys args oc dc s a = Some s'"
    and inv: "sys_inv dc N s" and N: "N < 2 ^ 63"
  shows "sys_inv dc N s'"
proof -
  have run: "\<forall>code. at (main s) \<noteq> Exited code"
    using step by (auto simp: sys_step_def split: pc.splits)
  from inv have i0: "0 \<le> doneCnt (main s)"
    and i1: "count (prod s) = doneCnt (main s) + int (inflight dc (workers s))"
    and i2: "count (prod s) = int (length (jobs_sent (emitted (prod s))))"
    and i3: "count (prod s) + int (length (stdin s)) \<le> N"
    and i4: "reading s \<longrightarrow> totalCnt (main s) = 2147483647"
    and i5: "\<not> reading s \<longrightarrow> totalCnt (main s) = count (prod s)"
    by (auto simp: sys_inv_def)
  show ?thesis
  proof (cases a)
    case Main
    with step run obtain c where c: "main_step (main s) Test = Some c" and s': "s' = s\<lparr>main := c\<rparr>"
      by (auto simp: sys_step_def split: pc.splits option.splits)
    from main_step_inv [OF c] inv s' show ?thesis
      by (auto simp: sys_inv_def)
  next
    case (Worker i)
    with step run have w: "worker_step oc dc i s = Some s'"
      by (auto simp: sys_step_def split: pc.splits)
    then have il: "i < length (workers s)"
      by (auto simp: worker_step_def split: if_splits)
    from w il obtain e es where hd: "workers s ! i = e # es"
      by (cases "workers s ! i") (auto simp: worker_step_def)
    show ?thesis
    proof (cases e)
      case (Spawn name as)
      with w il hd have s': "s' = s\<lparr>workers := (workers s)[i := es]\<rparr>"
        by (simp add: worker_step_def)
      have "inflight dc ((workers s)[i := es]) = inflight dc (workers s)"
        using inflight_update [OF il, of dc es] hd Spawn by simp
      with inv s' show ?thesis by (auto simp: sys_inv_def)
    next
      case (Send_Str ch x)
      with w il hd obtain c where c: "main_step (main s) (Recv_Log x) = Some c"
        and s': "s' = s\<lparr>workers := (workers s)[i := es], main := c\<rparr>"
        by (auto simp: worker_step_def split: if_splits option.splits)
      from c have cc: "c = (main s)\<lparr>printed := printed (main s) @ x, at := At_Test\<rparr>"
        by (auto split: if_splits)
      have "inflight dc ((workers s)[i := es]) = inflight dc (workers s)"
        using inflight_update [OF il, of dc es] hd Send_Str by simp
      with inv s' cc show ?thesis by (auto simp: sys_inv_def)
    next
      case (Send_Int ch v)
      with w il hd obtain c where ch: "ch = dc" and c: "main_step (main s) (Recv_Done v) = Some c"
        and s': "s' = s\<lparr>workers := (workers s)[i := es], main := c\<rparr>"
        by (auto simp: worker_step_def split: if_splits option.splits)
      from c have cc: "c = (main s)\<lparr>errCnt := go_int (errCnt (main s) + v),
          doneCnt := go_int (doneCnt (main s) + 1), at := At_Test\<rparr>"
        by (auto split: if_splits)
      have fl: "inflight dc ((workers s)[i := es]) + 1 = inflight dc (workers s)"
        using inflight_update [OF il, of dc es] hd Send_Int ch by simp
      then have "doneCnt (main s) + 1 \<le> count (prod s)" using i1 by simp
      then have "doneCnt (main s) + 1 < 2 ^ 63" using i3 N by simp
      then have d: "go_int (doneCnt (main s) + 1) = doneCnt (main s) + 1"
        using i0 by (intro go_int_id) auto
      have "count (prod s) = doneCnt (main s) + 1 + int (inflight dc ((workers s)[i := es]))"
        using i1 fl by simp
      with inv s' cc d show ?thesis by (auto simp: sys_inv_def)
    qed
  next
    case (Producer i)
    with step run have p: "producer_step sys args oc dc i s = Some s'"
      by (auto simp: sys_step_def split: pc.splits)
    then have rd: "reading s" by (auto simp: producer_step_def split: if_splits)
    show ?thesis
    proof (cases "stdin s")
      case Nil
      with p rd obtain c where c: "main_step (main s) (Total_Stored (count (prod s))) = Some c"
        and s': "s' = s\<lparr>prod := (prod s)\<lparr>emitted := emitted (prod s) @ [Store_Total (count (prod s))]\<rparr>,
                          reading := False, main := c\<rparr>"
        by (auto simp: producer_step_def split: option.splits)
      from c run have cc: "c = (main s)\<lparr>totalCnt := count (prod s)\<rparr>"
        by (auto split: pc.splits)
      from inv s' cc run Nil show ?thesis
        by (auto simp: sys_inv_def jobs_sent_append)
    next
      case (Cons r rs)
      show ?thesis
      proof (cases r)
        case Failed
        with p rd Cons show ?thesis by (simp add: producer_step_def)
      next
        case (Got c)
        show ?thesis
        proof (cases "c = LF")
          case False
          with p rd Cons Got
          have s': "s' = s\<lparr>stdin := rs, prod := (prod s)\<lparr>buffer := buffer (prod s) @ [c]\<rparr>\<rparr>"
            by (simp add: producer_step_def)
          from inv s' Cons show ?thesis by (auto simp: sys_inv_def)
        next
          case True
          with p rd Cons Got obtain p1 where sub: "submit args oc dc (prod s) = Inr p1"
            and il: "i < length (workers s)" and idle: "workers s ! i = []"
            and s'0: "(let (d, es, h) = handle_job sys (int i) (last (jobs_sent (emitted p1))) (mem p1)
                       in Some (s\<lparr>stdin := rs, prod := p1\<lparr>mem := h\<rparr>, workers := (workers s)[i := es]\<rparr>))
                     = Some s'"
            by (auto simp: producer_step_def split: sum.splits if_splits)
          from submit_Inr_fields [OF sub] obtain rj where
            cnt: "count p1 = go_int (count (prod s) + 1)"
            and em: "emitted p1 = emitted (prod s) @ [Send_Job rj]" and dcj: "DoneChan rj = dc"
            by blast
          have lastj: "last (jobs_sent (emitted p1)) = rj"
            by (simp add: em jobs_sent_append)
          obtain d es h where hj: "handle_job sys (int i) rj (mem p1) = (d, es, h)"
            by (cases "handle_job sys (int i) rj (mem p1)") auto
          from s'0 lastj hj
          have s': "s' = s\<lparr>stdin := rs, prod := p1\<lparr>mem := h\<rparr>, workers := (workers s)[i := es]\<rparr>"
            by simp
          have ces: "completions dc es = 1"
            using completions_handle_job [OF hj] dcj by simp
          have fl: "inflight dc ((workers s)[i := es]) = inflight dc (workers s) + 1"
            using inflight_update [OF il, of dc es] idle ces by simp
          have c0: "0 \<le> count (prod s)" using i0 i1 by simp
          have "count (prod s) + 1 < 2 ^ 63" using i3 N Cons by simp
          then have c1: "count p1 = count (prod s) + 1"
            using cnt c0 by (simp add: go_int_id)
          from inv s' fl c1 em Cons rd run show ?thesis
            by (auto simp: sys_inv_def jobs_sent_append)
        qed
      qed
    qed
  qed
qed

lemma sys_run_inv:
  assumes "sys_run sys args oc dc s acts = Some s'" and "sys_inv dc N s" and "N < 2 ^ 63"
  shows "sys_inv dc N s'"
  using assms
proof (induction acts arbitrary: s)
  case Nil
  then show ?case by simp
next
  case (Cons a acts)
  from Cons.prems(1) obtain s1 where s1: "sys_step sys args oc dc s a = Some s1"
    and r: "sys_run sys args oc dc s1 acts = Some s'"
    by (auto split: option.splits)
  from sys_step_inv [OF s1 Cons.prems(2,3)] have "sys_inv dc N s1" .
  from Cons.IH [OF r this Cons.prems(3)] show ?case .
qed

lemma sys_inv_init: "sys_inv dc (int (length rs)) (system_init rs h n)"
  by (simp add: sys_inv_def system_init_def producer_init_def collector_init_def inflight_replicate)

lemma sys_step_count_inv:
  assumes step: "sys_step sys args oc dc s a = Some s'"
    and inv: "sys_inv dc N s" and N: "N < 2 ^ 63" and cinv: "count_inv s"
  shows "count_inv s'"
proof -
  have run: "\<forall>code. at (main s) \<noteq> Exited code"
    using step by (auto simp: sys_step_def split: pc.splits)
  from inv have i0: "0 \<le> doneCnt (main s)"
    and i1: "count (prod s) = doneCnt (main s) + int (inflight dc (workers s))"
    and i3: "count (prod s) + int (length (stdin s)) \<le> N"
    and i4: "reading s \<longrightarrow> totalCnt (main s) = 2147483647"
    and i5: "\<not> reading s \<longrightarrow> totalCnt (main s) = count (prod s)"
    by (auto simp: sys_inv_def)
  from cinv have c1: "doneCnt (main s) \<le> totalCnt (main s)"
    and c2: "reading s \<and> at (main s) = In_Select \<longrightarrow> doneCnt (main s) < 2147483647"
    by (auto simp: count_inv_def)
  show ?thesis
  proof (cases a)
    case Main
    with step run obtain c where c: "main_step (main s) Test = Some c" and s': "s' = s\<lparr>main := c\<rparr>"
      by (auto simp: sys_step_def split: pc.splits option.splits)
    from c show ?thesis
    proof (cases rule: main_step_cases)
      case test_go
      with s' c1 i4 show ?thesis by (auto simp: count_inv_def)
    next
      case test_exit
      with s' c1 show ?thesis by (auto simp: count_inv_def)
    qed auto
  next
    case (Worker i)
    with step run have w: "worker_step oc dc i s = Some s'"
      by (auto simp: sys_step_def split: pc.splits)
    then have il: "i < length (workers s)"
      by (auto simp: worker_step_def split: if_splits)
    from w il obtain e es where hd: "workers s ! i = e # es"
      by (cases "workers s ! i") (auto simp: worker_step_def)
    show ?thesis
    proof (cases e)
      case (Spawn name as)
      with w il hd have s': "s' = s\<lparr>workers := (workers s)[i := es]\<rparr>"
        by (simp add: worker_step_def)
      with cinv show ?thesis by (auto simp: count_inv_def)
    next
      case (Send_Str ch x)
      with w il hd obtain c where c: "main_step (main s) (Recv_Log x) = Some c"
        and s': "s' = s\<lparr>workers := (workers s)[i := es], main := c\<rparr>"
        by (auto simp: worker_step_def split: if_splits option.splits)
      from c have cc: "c = (main s)\<lparr>printed := printed (main s) @ x, at := At_Test\<rparr>"
        by (auto split: if_splits)
      with s' c1 show ?thesis by (auto simp: count_inv_def)
    next
      case (Send_Int ch v)
      with w il hd obtain c where ch: "ch = dc" and c: "main_step (main s) (Recv_Done v) = Some c"
        and s': "s' = s\<lparr>workers := (workers s)[i := es], main := c\<rparr>"
        by (auto simp: worker_step_def split: if_splits option.splits)
      from c have sel: "at (main s) = In_Select"
        and cc: "c = (main s)\<lparr>errCnt := go_int (errCnt (main s) + v),
          doneCnt := go_int (doneCnt (main s) + 1), at := At_Test\<rparr>"
        by (auto split: if_splits)
      have fl: "inflight dc ((workers s)[i := es]) + 1 = inflight dc (workers s)"
        using inflight_update [OF il, of dc es] hd Send_Int ch by simp
      then have le: "doneCnt (main s) + 1 \<le> count (prod s)" using i1 by simp
      then have "doneCnt (main s) + 1 < 2 ^ 63" using i3 N by simp
      then have d: "go_int (doneCnt (main s) + 1) = doneCnt (main s) + 1"
        using i0 by (intro go_int_id) auto
      have "doneCnt (main s) + 1 \<le> totalCnt (main s)"
      proof (cases "reading s")
        case True
        with c2 sel i4 show ?thesis by simp
      next
        case False
        with i5 le show ?thesis by simp
      qed
      with s' cc d show ?thesis by (auto simp: count_inv_def)
    qed
  next
    case (Producer i)
    with step run have p: "producer_step sys args oc dc i s = Some s'"
      by (auto simp: sys_step_def split: pc.splits)
    then have rd: "reading s" by (auto simp: producer_step_def split: if_splits)
    show ?thesis
    proof (cases "stdin s")
      case Nil
      with p rd obtain c where c: "main_step (main s) (Total_Stored (count (prod s))) = Some c"
        and s': "s' = s\<lparr>prod := (prod s)\<lparr>emitted := emitted (prod s) @ [Store_Total (count (prod s))]\<rparr>,
                          reading := False, main := c\<rparr>"
        by (auto simp: producer_step_def split: option.splits)
      from c run have cc: "c = (main s)\<lparr>totalCnt := count (prod s)\<rparr>"
        by (auto split: pc.splits)
      from s' cc run i1 show ?thesis
        by (auto simp: count_inv_def)
    next
      case (Cons r rs)
      from p rd Cons have "main s' = main s \<and> reading s'"
        by (auto simp: producer_step_def Let_def split: read_result.splits if_splits sum.splits prod.splits)
      with cinv rd show ?thesis by (auto simp: count_inv_def)
    qed
  qed
qed

lemma sys_run_invs:
  assumes "sys_run sys args oc dc s acts = Some s'" and "sys_inv dc N s" and "count_inv s"
    and "N < 2 ^ 63"
  shows "sys_inv dc N s' \<and> count_inv s'"
  using assms
proof (induction acts arbitrary: s)
  case Nil
  then show ?case by simp
next
  case (Cons a acts)
  from Cons.prems(1) obtain s1 where s1: "sys_step sys args oc dc s a = Some s1"
    and r: "sys_run sys args oc dc s1 acts = Some s'"
    by (auto split: option.splits)
  have "sys_inv dc N s1" by (rule sys_step_inv [OF s1 Cons.prems(2,4)])
  moreover have "count_inv s1" by (rule sys_step_count_inv [OF s1 Cons.prems(2,4,3)])
  ultimately show ?case using Cons.IH [OF r] Cons.prems(4) by blast
qed

lemma count_inv_init: "count_inv (system_init rs h n)"
  by (simp add: count_inv_def system_init_def collector_init_def)

lemma main_loop_rounds:
  assumes "at c = At_Test" "0 \<le> doneCnt c" "0 \<le> errCnt c" "errCnt c < 2 ^ 63"
    "doneCnt c + int n \<le> totalCnt c" "totalCnt c < 2 ^ 63"
  shows "main_loop c (concat (replicate n [Test, Recv_Done 0])) = Some (c\<lparr>doneCnt := doneCnt c + int n\<rparr>)"
  using assms
proof (induction n arbitrary: c)
  case 0
  then show ?case by simp
next
  case (Suc n)
  have lt: "doneCnt c < totalCnt c" using Suc.prems by simp
  have d: "go_int (doneCnt c + 1) = doneCnt c + 1"
    using Suc.prems by (intro go_int_id) auto
  have e: "go_int (errCnt c + 0) = errCnt c"
    using Suc.prems by (simp add: go_int_id)
  let ?c1 = "c\<lparr>doneCnt := doneCnt c + 1\<rparr>"
  have same: "c\<lparr>doneCnt := doneCnt c + 1, at := At_Test\<rparr> = ?c1"
    using Suc.prems(1) by (cases c) simp
  have two: "main_loop c ([Test, Recv_Done 0] @ es) = main_loop ?c1 es" for es
  proof -
    have "main_loop c ([Test, Recv_Done 0] @ es) =
        main_loop (c\<lparr>doneCnt := doneCnt c + 1, at := At_Test\<rparr>) es"
      using Suc.prems(1) lt d e by simp
    then show ?thesis unfolding same .
  qed
  have "main_loop ?c1 (concat (replicate n [Test, Recv_Done 0])) =
      Some (?c1\<lparr>doneCnt := doneCnt ?c1 + int n\<rparr>)"
    using Suc.prems by (intro Suc.IH) auto
  then show ?case
    using two [of "concat (replicate n [Test, Recv_Done 0])"] by (simp add: add.commute add.left_commute)
qed

lemma main_loop_terminates:
  assumes "at c = At_Test" "0 \<le> doneCnt c" "0 \<le> errCnt c" "errCnt c \<le> doneCnt c"
    "\<forall>v\<in>set vs. v = 0 \<or> v = 1"
    "totalCnt c = doneCnt c + int (length vs)" "totalCnt c < 2 ^ 63"
  shows "main_loop c (concat (map (\<lambda>v. [Test, Recv_Done v]) vs) @ [Test]) =
     Some (c\<lparr>doneCnt := doneCnt c + int (length vs), errCnt := errCnt c + sum_list vs,
             at := Exited (errCnt c + sum_list vs)\<rparr>)"
  using assms
proof (induction vs arbitrary: c)
  case Nil
  then show ?case by (cases c) simp
next
  case (Cons v vs)
  have lt: "doneCnt c < totalCnt c" using Cons.prems by simp
  have v: "v = 0 \<or> v = 1" using Cons.prems by simp
  have d: "go_int (doneCnt c + 1) = doneCnt c + 1"
    using Cons.prems by (intro go_int_id) auto
  have e: "go_int (errCnt c + v) = errCnt c + v"
    using Cons.prems v by (intro go_int_id) auto
  let ?c1 = "c\<lparr>errCnt := errCnt c + v, doneCnt := doneCnt c + 1, at := At_Test\<rparr>"
  have two: "main_loop c ([Test, Recv_Done v] @ es) = main_loop ?c1 es" for es
    using Cons.prems(1) lt d e by simp
  have "main_loop ?c1 (concat (map (\<lambda>v. [Test, Recv_Done v]) vs) @ [Test]) =
     Some (?c1\<lparr>doneCnt := doneCnt ?c1 + int (length vs), errCnt := errCnt ?c1 + sum_list vs,
             at := Exited (errCnt ?c1 + sum_list vs)\<rparr>)"
    using Cons.prems v by (intro Cons.IH) auto
  then show ?case
    using two [of "concat (map (\<lambda>v. [Test, Recv_Done v]) vs) @ [Test]"]
    by (simp add: add.commute add.left_commute)
qed

lemma main_loop_sentinel:
  "main_loop collector_init (concat (replicate 2147483647 [Test, Recv_Done 0]) @ [Test]) =
     Some \<lparr>doneCnt = 2147483647, errCnt = 0, totalCnt = 2147483647, printed = [], at = Exited 0\<rparr>"
proof -
  have r: "main_loop collector_init (concat (replicate 2147483647 [Test, Recv_Done 0])) =
      Some (collector_init\<lparr>doneCnt := doneCnt collector_init + int 2147483647\<rparr>)"
    by (rule main_loop_rounds) (simp_all add: collector_init_def)
  show ?thesis
    unfolding main_loop_append r by (simp add: collector_init_def)
qed

section \<open>What the main goroutine receives in a run of the whole program\<close>

lemma sys_step_main:
  assumes "sys_step sys args oc dc s a = Some s'"
  shows "(case main_event s a of None \<Rightarrow> Some (main s) | Some e \<Rightarrow> main_step (main s) e) = Some (main s')"
proof (cases a)
  case Main
  with assms show ?thesis
    by (auto simp: sys_step_def main_event_def split: pc.splits option.splits)
next
  case (Worker i)
  with assms have w: "worker_step oc dc i s = Some s'"
    by (auto simp: sys_step_def split: pc.splits)
  then show ?thesis using Worker
    by (auto simp: worker_step_def main_event_def
        split: if_splits list.splits effect.splits option.splits)
next
  case (Producer i)
  with assms have p: "producer_step sys args oc dc i s = Some s'"
    by (auto simp: sys_step_def split: pc.splits)
  then show ?thesis using Producer
    by (auto simp: producer_step_def main_event_def Let_def
        split: if_splits list.splits read_result.splits option.splits sum.splits prod.splits)
qed

lemma sys_run_main_loop:
  assumes "sys_run sys args oc dc s acts = Some s'"
  shows "main_loop (main s) (sys_events sys args oc dc s acts) = Some (main s')"
  using assms
proof (induction acts arbitrary: s)
  case Nil
  then show ?case by simp
next
  case (Cons a acts)
  from Cons.prems obtain s1 where s1: "sys_step sys args oc dc s a = Some s1"
    and r: "sys_run sys args oc dc s1 acts = Some s'"
    by (auto split: option.splits)
  from sys_step_main [OF s1] Cons.IH [OF r] s1 show ?case
    by (auto split: option.splits)
qed

lemma outcomes_ok_handle_job:
  "handle_job sys wid job h = (d, es, h') \<Longrightarrow> outcomes_ok es"
  using handle_job_effects [of sys wid job h] by auto

lemma outcomes_ok_tl: "outcomes_ok (e # es) \<Longrightarrow> outcomes_ok es"
  by (cases e) auto

lemma producer_step_workers:
  assumes "producer_step sys args oc dc i s = Some s'"
  shows "workers s' = workers s \<or>
         (\<exists>job h0 d es h1. handle_job sys (int i) job h0 = (d, es, h1) \<and>
            workers s' = (workers s)[i := es])"
proof (cases "stdin s")
  case Nil
  with assms show ?thesis
    by (auto simp: producer_step_def split: if_splits option.splits)
next
  case (Cons r rs)
  show ?thesis
  proof (cases r)
    case Failed
    with assms Cons show ?thesis by (auto simp: producer_step_def split: if_splits)
  next
    case (Got c)
    show ?thesis
    proof (cases "c = LF")
      case False
      with assms Cons Got show ?thesis by (auto simp: producer_step_def split: if_splits)
    next
      case True
      with assms Cons Got obtain p1 where
          s'0: "(let (d, es, h) = handle_job sys (int i) (last (jobs_sent (emitted p1))) (mem p1)
                       in Some (s\<lparr>stdin := rs, prod := p1\<lparr>mem := h\<rparr>, workers := (workers s)[i := es]\<rparr>))
                     = Some s'"
        by (auto simp: producer_step_def split: sum.splits if_splits)
      obtain d es h where hj: "handle_job sys (int i) (last (jobs_sent (emitted p1))) (mem p1) = (d, es, h)"
        by (cases "handle_job sys (int i) (last (jobs_sent (emitted p1))) (mem p1)") auto
      with s'0 have "workers s' = (workers s)[i := es]" by auto
      with hj show ?thesis by blast
    qed
  qed
qed

lemma sys_step_err_inv:
  assumes step: "sys_step sys args oc dc s a = Some s'"
    and inv: "sys_inv dc N s" and N: "N < 2 ^ 63" and einv: "err_inv s"
  shows "err_inv s' \<and>
         (\<forall>v. main_event s a = Some (Recv_Done v) \<longrightarrow>
            (v = 0 \<or> v = 1) \<and> errCnt (main s') = errCnt (main s) + v \<and>
            doneCnt (main s') = doneCnt (main s) + 1) \<and>
         ((\<forall>v. main_event s a \<noteq> Some (Recv_Done v)) \<longrightarrow>
            errCnt (main s') = errCnt (main s) \<and> doneCnt (main s') = doneCnt (main s))"
proof -
  from inv have i0: "0 \<le> doneCnt (main s)"
    and i1: "count (prod s) = doneCnt (main s) + int (inflight dc (workers s))"
    and i3: "count (prod s) + int (length (stdin s)) \<le> N"
    by (auto simp: sys_inv_def)
  from einv have e0: "0 \<le> errCnt (main s)" and e1: "errCnt (main s) \<le> doneCnt (main s)"
    and e2: "\<forall>es\<in>set (workers s). outcomes_ok es"
    by (auto simp: err_inv_def)
  show ?thesis
  proof (cases a)
    case Main
    with step obtain c where c: "main_step (main s) Test = Some c" and s': "s' = s\<lparr>main := c\<rparr>"
      by (auto simp: sys_step_def split: pc.splits option.splits)
    from c have "errCnt c = errCnt (main s)" "doneCnt c = doneCnt (main s)"
      by (auto split: if_splits)
    with einv s' Main show ?thesis by (auto simp: err_inv_def main_event_def)
  next
    case (Producer i)
    with step have p: "producer_step sys args oc dc i s = Some s'"
      by (auto simp: sys_step_def split: pc.splits)
    have me: "\<forall>v. main_event s a \<noteq> Some (Recv_Done v)"
      using Producer by (simp add: main_event_def)
    have cnt: "errCnt (main s') = errCnt (main s) \<and> doneCnt (main s') = doneCnt (main s)"
      using p by (auto simp: producer_step_def Let_def
          split: if_splits list.splits read_result.splits option.splits sum.splits prod.splits pc.splits)
    have "\<forall>es\<in>set (workers s'). outcomes_ok es"
    proof (cases "workers s' = workers s")
      case True
      with e2 show ?thesis by simp
    next
      case False
      with producer_step_workers [OF p] obtain job h0 d es h1
        where "handle_job sys (int i) job h0 = (d, es, h1)"
        and ws: "workers s' = (workers s)[i := es]"
        by blast
      from outcomes_ok_handle_job [OF this(1)] have "outcomes_ok es" .
      with e2 ws show ?thesis
        by (auto dest!: set_update_subset_insert [THEN subsetD])
    qed
    with cnt e0 e1 me show ?thesis by (simp add: err_inv_def)
  next
    case (Worker i)
    with step have w: "worker_step oc dc i s = Some s'"
      by (auto simp: sys_step_def split: pc.splits)
    then have il: "i < length (workers s)"
      by (auto simp: worker_step_def split: if_splits)
    from w il obtain e es where hd: "workers s ! i = e # es"
      by (cases "workers s ! i") (auto simp: worker_step_def)
    have ok: "outcomes_ok (e # es)" using e2 il hd by (metis nth_mem)
    have ws_ok: "\<forall>x\<in>set ((workers s)[i := es]). outcomes_ok x"
      using e2 outcomes_ok_tl [OF ok]
      by (auto dest!: set_update_subset_insert [THEN subsetD])
    show ?thesis
    proof (cases e)
      case (Spawn name as)
      with w il hd have s': "s' = s\<lparr>workers := (workers s)[i := es]\<rparr>"
        by (simp add: worker_step_def)
      with einv ws_ok Worker hd Spawn show ?thesis
        by (simp add: err_inv_def main_event_def)
    next
      case (Send_Str ch x)
      with w il hd obtain c where c: "main_step (main s) (Recv_Log x) = Some c"
        and s': "s' = s\<lparr>workers := (workers s)[i := es], main := c\<rparr>"
        by (auto simp: worker_step_def split: if_splits option.splits)
      from c have cc: "c = (main s)\<lparr>printed := printed (main s) @ x, at := At_Test\<rparr>"
        by (auto split: if_splits)
      with einv ws_ok Worker hd Send_Str s' show ?thesis
        by (simp add: err_inv_def main_event_def)
    next
      case (Send_Int ch v)
      with w il hd obtain c where ch: "ch = dc" and c: "main_step (main s) (Recv_Done v) = Some c"
        and s': "s' = s\<lparr>workers := (workers s)[i := es], main := c\<rparr>"
        by (auto simp: worker_step_def split: if_splits option.splits)
      from c have cc: "c = (main s)\<lparr>errCnt := go_int (errCnt (main s) + v),
          doneCnt := go_int (doneCnt (main s) + 1), at := At_Test\<rparr>"
        by (auto split: if_splits)
      have v: "v = 0 \<or> v = 1" using ok Send_Int by simp
      have fl: "inflight dc ((workers s)[i := es]) + 1 = inflight dc (workers s)"
        using inflight_update [OF il, of dc es] hd Send_Int ch by simp
      then have "doneCnt (main s) + 1 \<le> count (prod s)" using i1 by simp
      then have b: "doneCnt (main s) + 1 < 2 ^ 63" using i3 N by simp
      then have d: "go_int (doneCnt (main s) + 1) = doneCnt (main s) + 1"
        using i0 by (intro go_int_id) auto
      have e: "go_int (errCnt (main s) + v) = errCnt (main s) + v"
        using e0 e1 b v by (intro go_int_id) auto
      have me: "main_event s a = Some (Recv_Done v)"
        using Worker hd Send_Int by (simp add: main_event_def)
      from s' cc d e v e0 e1 ws_ok me show ?thesis
        by (auto simp: err_inv_def)
    qed
  qed
qed

lemma sys_run_errCnt:
  assumes "sys_run sys args oc dc s acts = Some s'"
    and "sys_inv dc N s" and "N < 2 ^ 63" and "err_inv s"
  shows "errCnt (main s') = errCnt (main s) + sum_list (received (sys_events sys args oc dc s acts)) \<and>
         doneCnt (main s') = doneCnt (main s) + int (length (received (sys_events sys args oc dc s acts))) \<and>
         (\<forall>v\<in>set (received (sys_events sys args oc dc s acts)). v = 0 \<or> v = 1)"
  using assms
proof (induction acts arbitrary: s)
  case Nil
  then show ?case by simp
next
  case (Cons a acts)
  from Cons.prems(1) obtain s1 where s1: "sys_step sys args oc dc s a = Some s1"
    and r: "sys_run sys args oc dc s1 acts = Some s'"
    by (auto split: option.splits)
  note st = sys_step_err_inv [OF s1 Cons.prems(2,3,4)]
  have i1: "sys_inv dc N s1" by (rule sys_step_inv [OF s1 Cons.prems(2,3)])
  from st have e1: "err_inv s1" by blast
  note ih = Cons.IH [OF r i1 Cons.prems(3) e1]
  show ?case
  proof (cases "\<exists>v. main_event s a = Some (Recv_Done v)")
    case True
    then obtain v where v: "main_event s a = Some (Recv_Done v)" by blast
    with st have "v = 0 \<or> v = 1" "errCnt (main s1) = errCnt (main s) + v"
      "doneCnt (main s1) = doneCnt (main s) + 1" by auto
    with ih v s1 show ?thesis by simp
  next
    case False
    with st have same: "errCnt (main s1) = errCnt (main s)" "doneCnt (main s1) = doneCnt (main s)"
      by auto
    have "received (sys_events sys args oc dc s (a # acts)) = received (sys_events sys args oc dc s1 acts)"
    proof (cases "main_event s a")
      case None
      with s1 show ?thesis by simp
    next
      case (Some e)
      with False have "received (e # es') = received es'" for es'
        by (cases e) auto
      with Some s1 show ?thesis by simp
    qed
    with ih same show ?thesis by simp
  qed
qed

lemma err_inv_init: "err_inv (system_init rs h n)"
  by (simp add: err_inv_def system_init_def collector_init_def)

section \<open>The producer of the whole program is \<^verbatim>\<open>readInput\<close>\<close>

lemma trace_from_init: "producer_trace args oc dc rs h = trace_from args oc dc rs (producer_init h)"
  by (simp add: producer_trace_def trace_from_def)

lemma trace_from_cong:
  assumes "buffer p = buffer q" "count p = count q" "emitted p = emitted q"
    "fresh (mem p) = fresh (mem q)" "arrays (mem p) args = arrays (mem q) args"
    "args < fresh (mem p)"
  shows "trace_from args oc dc rs p = trace_from args oc dc rs q"
  using assms
proof (induction rs arbitrary: p q)
  case Nil
  then show ?case by (simp add: trace_from_def)
next
  case (Cons r rs)
  show ?case
  proof (cases r)
    case Failed
    then show ?thesis by (simp add: trace_from_def)
  next
    case (Got c)
    show ?thesis
    proof (cases "c = LF")
      case False
      have "trace_from args oc dc rs (p\<lparr>buffer := buffer p @ [c]\<rparr>) =
            trace_from args oc dc rs (q\<lparr>buffer := buffer q @ [c]\<rparr>)"
        using Cons.prems by (intro Cons.IH) auto
      with Got False show ?thesis by (simp add: trace_from_def)
    next
      case True
      show ?thesis
      proof (cases "length (arrays (mem p) args) < 2")
        case True
        then have "submit args oc dc p = Inl Panic_MakeSlice" "submit args oc dc q = Inl Panic_MakeSlice"
          using Cons.prems by (simp_all add: submit_def Let_def)
        with Got \<open>c = LF\<close> show ?thesis by (simp add: trace_from_def)
      next
        case False
        then have lp: "2 \<le> length (arrays (mem p) args)" and lq: "2 \<le> length (arrays (mem q) args)"
          using Cons.prems by simp_all
        have lq': "args < fresh (mem q)" using Cons.prems by simp
        note sp = submit_ok [OF lp Cons.prems(6), of oc dc]
        note sq = submit_ok [OF lq lq', of oc dc]
        let ?p1 = "\<lparr>buffer = [], count = go_int (count p + 1),
          emitted = emitted p @ [Send_Job \<lparr>Arg = Replace_CR (TrimSpace (buffer p)), OutChan = oc,
                                          DoneChan = dc, CmdData = fresh (mem p)\<rparr>],
          mem = after_jobs args 1 (mem p)\<rparr>"
        let ?q1 = "\<lparr>buffer = [], count = go_int (count q + 1),
          emitted = emitted q @ [Send_Job \<lparr>Arg = Replace_CR (TrimSpace (buffer q)), OutChan = oc,
                                          DoneChan = dc, CmdData = fresh (mem q)\<rparr>],
          mem = after_jobs args 1 (mem q)\<rparr>"
        have "trace_from args oc dc rs ?p1 = trace_from args oc dc rs ?q1"
          using Cons.prems by (intro Cons.IH) auto
        with Got \<open>c = LF\<close> sp sq show ?thesis by (simp add: trace_from_def)
      qed
    qed
  qed
qed

lemma handle_job_fresh: "fresh (snd (snd (handle_job sys wid job h))) = fresh h"
proof (cases "Arg job = [] \<or> arrays h (CmdData job) = []")
  case True
  then show ?thesis by (simp add: handle_job_noop)
next
  case False
  then show ?thesis
    by (simp add: handle_job_executes Let_def split: prod.splits option.splits)
qed

lemma sys_step_refines:
  assumes step: "sys_step sys args oc dc s a = Some s'" and r: "refines args oc dc rs h s"
  shows "refines args oc dc rs h s'"
proof (cases a)
  case Main
  with step have "prod s' = prod s" "stdin s' = stdin s" "reading s' = reading s"
    by (auto simp: sys_step_def split: pc.splits option.splits)
  with r show ?thesis by (simp add: refines_def)
next
  case (Worker i)
  with step have "prod s' = prod s" "stdin s' = stdin s" "reading s' = reading s"
    by (auto simp: sys_step_def worker_step_def
        split: pc.splits option.splits if_splits list.splits effect.splits)
  with r show ?thesis by (simp add: refines_def)
next
  case (Producer i)
  with step have p: "producer_step sys args oc dc i s = Some s'"
    by (auto simp: sys_step_def split: pc.splits)
  then have rd: "reading s" by (auto simp: producer_step_def split: if_splits)
  from r rd have fr: "args < fresh (mem (prod s))"
    and tr: "trace_from args oc dc (stdin s) (prod s) = producer_trace args oc dc rs h"
    by (auto simp: refines_def)
  show ?thesis
  proof (cases "stdin s")
    case Nil
    with p rd have "prod s' = (prod s)\<lparr>emitted := emitted (prod s) @ [Store_Total (count (prod s))]\<rparr>"
      "\<not> reading s'"
      by (auto simp: producer_step_def split: option.splits)
    with tr Nil fr show ?thesis by (simp add: refines_def trace_from_def)
  next
    case (Cons x xs)
    show ?thesis
    proof (cases x)
      case Failed
      with p rd Cons show ?thesis by (simp add: producer_step_def)
    next
      case (Got c)
      show ?thesis
      proof (cases "c = LF")
        case False
        with p rd Cons Got
        have s': "s' = s\<lparr>stdin := xs, prod := (prod s)\<lparr>buffer := buffer (prod s) @ [c]\<rparr>\<rparr>"
          by (simp add: producer_step_def)
        from tr Cons Got False fr rd show ?thesis
          by (simp add: refines_def s' trace_from_def)
      next
        case True
        with p rd Cons Got obtain p1 where sub: "submit args oc dc (prod s) = Inr p1"
          and s'0: "(let (d, es, h) = handle_job sys (int i) (last (jobs_sent (emitted p1))) (mem p1)
                       in Some (s\<lparr>stdin := xs, prod := p1\<lparr>mem := h\<rparr>, workers := (workers s)[i := es]\<rparr>))
                     = Some s'"
          by (auto simp: producer_step_def split: sum.splits if_splits)
        let ?rj = "\<lparr>Arg = Replace_CR (TrimSpace (buffer (prod s))), OutChan = oc,
                                          DoneChan = dc, CmdData = fresh (mem (prod s))\<rparr>"
        have p1: "p1 = \<lparr>buffer = [], count = go_int (count (prod s) + 1),
          emitted = emitted (prod s) @ [Send_Job ?rj], mem = after_jobs args 1 (mem (prod s))\<rparr>"
          by (rule submit_Inr_simple [OF sub fr])
        have lastj: "last (jobs_sent (emitted p1)) = ?rj"
          by (simp add: p1 jobs_sent_append)
        let ?h = "snd (snd (handle_job sys (int i) ?rj (mem p1)))"
        from s'0 lastj have s': "stdin s' = xs" "prod s' = p1\<lparr>mem := ?h\<rparr>" "reading s' = reading s"
          by (auto split: prod.splits)
        have ne: "args \<noteq> CmdData ?rj" using fr by simp
        have ar: "arrays ?h args = arrays (mem p1) args"
          by (rule handle_job_frame [OF ne])
        have fh: "fresh ?h = fresh (mem p1)" by (rule handle_job_fresh)
        have f1: "args < fresh (mem p1)" using fr by (simp add: p1)
        have "trace_from args oc dc xs (p1\<lparr>mem := ?h\<rparr>) = trace_from args oc dc xs p1"
          using ar fh f1 by (intro trace_from_cong) simp_all
        moreover have "trace_from args oc dc (stdin s) (prod s) = trace_from args oc dc xs p1"
          using Cons Got True sub by (simp add: trace_from_def)
        ultimately show ?thesis
          using tr rd f1 fh by (simp add: refines_def s')
      qed
    qed
  qed
qed

lemma sys_run_refines:
  assumes "sys_run sys args oc dc s acts = Some s'" and "refines args oc dc rs h s"
  shows "refines args oc dc rs h s'"
  using assms
proof (induction acts arbitrary: s)
  case Nil
  then show ?case by simp
next
  case (Cons a acts)
  from Cons.prems(1) obtain s1 where s1: "sys_step sys args oc dc s a = Some s1"
    and r: "sys_run sys args oc dc s1 acts = Some s'"
    by (auto split: option.splits)
  from Cons.IH [OF r sys_step_refines [OF s1 Cons.prems(2)]] show ?case .
qed

text \<open>The producer of the whole program is \<^verbatim>\<open>readInput\<close>: when it has returned, it has sent
  the jobs and stored the total that \<open>readInput\<close> yields for the whole input.\<close>

lemma system_producer_is_readInput:
  assumes "sys_run sys args oc dc (system_init rs h n) acts = Some s" and "args < fresh h"
    and "\<not> reading s"
  shows "producer_trace args oc dc rs h = Some (emitted (prod s))"
proof -
  have "refines args oc dc rs h (system_init rs h n)"
    using assms(2) by (simp add: refines_def system_init_def trace_from_init producer_init_def)
  from sys_run_refines [OF assms(1) this] assms(3) show ?thesis
    by (simp add: refines_def)
qed

text \<open>No step of the program writes to the array of \<^verbatim>\<open>os.Args\<close>.\<close>

lemma sys_step_args:
  assumes step: "sys_step sys args oc dc s a = Some s'"
    and fr: "args < fresh (mem (prod s))"
  shows "args < fresh (mem (prod s')) \<and> arrays (mem (prod s')) args = arrays (mem (prod s)) args"
proof (cases a)
  case Main
  with step have "prod s' = prod s"
    by (auto simp: sys_step_def split: pc.splits option.splits)
  with fr show ?thesis by simp
next
  case (Worker i)
  with step have "prod s' = prod s"
    by (auto simp: sys_step_def worker_step_def
        split: pc.splits option.splits if_splits list.splits effect.splits)
  with fr show ?thesis by simp
next
  case (Producer i)
  with step have p: "producer_step sys args oc dc i s = Some s'"
    by (auto simp: sys_step_def split: pc.splits)
  then have rd: "reading s" by (auto simp: producer_step_def split: if_splits)
  show ?thesis
  proof (cases "stdin s")
    case Nil
    with p rd have "mem (prod s') = mem (prod s)"
      by (auto simp: producer_step_def split: option.splits)
    with fr show ?thesis by simp
  next
    case (Cons x xs)
    show ?thesis
    proof (cases x)
      case Failed
      with p rd Cons show ?thesis by (simp add: producer_step_def)
    next
      case (Got c)
      show ?thesis
      proof (cases "c = LF")
        case False
        with p rd Cons Got have "mem (prod s') = mem (prod s)"
          by (auto simp: producer_step_def)
        with fr show ?thesis by simp
      next
        case True
        with p rd Cons Got obtain p1 where sub: "submit args oc dc (prod s) = Inr p1"
          and s'0: "(let (d, es, h) = handle_job sys (int i) (last (jobs_sent (emitted p1))) (mem p1)
                       in Some (s\<lparr>stdin := xs, prod := p1\<lparr>mem := h\<rparr>, workers := (workers s)[i := es]\<rparr>))
                     = Some s'"
          by (auto simp: producer_step_def split: sum.splits if_splits)
        let ?rj = "\<lparr>Arg = Replace_CR (TrimSpace (buffer (prod s))), OutChan = oc,
                                          DoneChan = dc, CmdData = fresh (mem (prod s))\<rparr>"
        have p1: "p1 = \<lparr>buffer = [], count = go_int (count (prod s) + 1),
          emitted = emitted (prod s) @ [Send_Job ?rj], mem = after_jobs args 1 (mem (prod s))\<rparr>"
          by (rule submit_Inr_simple [OF sub fr])
        have lastj: "last (jobs_sent (emitted p1)) = ?rj"
          by (simp add: p1 jobs_sent_append)
        let ?h = "snd (snd (handle_job sys (int i) ?rj (mem p1)))"
        from s'0 lastj have s': "mem (prod s') = ?h"
          by (auto split: prod.splits)
        have ne: "args \<noteq> CmdData ?rj" using fr by simp
        have ar: "arrays ?h args = arrays (mem p1) args"
          by (rule handle_job_frame [OF ne])
        have fh: "fresh ?h = fresh (mem p1)" by (rule handle_job_fresh)
        have "arrays (mem p1) args = arrays (mem (prod s)) args" "args < fresh (mem p1)"
          using fr by (simp_all add: p1)
        with ar fh s' show ?thesis by simp
      qed
    qed
  qed
qed

lemma sys_run_args:
  assumes "sys_run sys args oc dc s acts = Some s'" and "args < fresh (mem (prod s))"
  shows "args < fresh (mem (prod s')) \<and> arrays (mem (prod s')) args = arrays (mem (prod s)) args"
  using assms
proof (induction acts arbitrary: s)
  case Nil
  then show ?case by simp
next
  case (Cons a acts)
  from Cons.prems(1) obtain s1 where s1: "sys_step sys args oc dc s a = Some s1"
    and r: "sys_run sys args oc dc s1 acts = Some s'"
    by (auto split: option.splits)
  from sys_step_args [OF s1 Cons.prems(2)] Cons.IH [OF r] show ?case by simp
qed

section \<open>Runs on blank lines and on the empty input\<close>

lemma sys_run_append:
  "sys_run sys args oc dc s (xs @ ys) =
     (case sys_run sys args oc dc s xs of None \<Rightarrow> None | Some s' \<Rightarrow> sys_run sys args oc dc s' ys)"
  by (induction xs arbitrary: s) (auto split: option.splits)

lemma after_jobs_Suc:
  "after_jobs args (Suc k) h = after_jobs args 1 (after_jobs args k h)"
proof (induction k arbitrary: h)
  case 0
  show ?case by simp
next
  case (Suc k)
  let ?h1 = "h\<lparr>arrays := (arrays h)(fresh h := drop 2 (arrays h args)), fresh := Suc (fresh h)\<rparr>"
  have "after_jobs args (Suc (Suc k)) h = after_jobs args (Suc k) ?h1"
    by (subst after_jobs.simps(2)) (rule refl)
  also have "\<dots> = after_jobs args 1 (after_jobs args k ?h1)"
    by (rule Suc.IH)
  also have "after_jobs args k ?h1 = after_jobs args (Suc k) h"
    by simp
  finally show ?case .
qed

lemma TrimSpace_Nil: "Replace_CR (TrimSpace []) = []"
  by (simp add: Replace_CR_def TrimSpace_def TrimLeft.simps TrimRight.simps leading_space_def
      trailing_space_def space_runes_def starts_with_def ends_with_def)

text \<open>When the producer has returned, every worker waits for a job and the main goroutine
  waits in its \<^verbatim>\<open>select\<close>, no goroutine can take another step.\<close>

lemma blocked_in_select:
  assumes "\<not> reading s" and "\<forall>w\<in>set (workers s). w = []" and "at (main s) = In_Select"
  shows "sys_step sys args oc dc s a = None"
proof (cases a)
  case (Producer j)
  then show ?thesis using assms(1,3) by (simp add: sys_step_def producer_step_def)
next
  case (Worker j)
  have "j < length (workers s) \<Longrightarrow> workers s ! j = []" using assms(2) by simp
  then show ?thesis using Worker assms(3) by (simp add: sys_step_def worker_step_def)
next
  case Main
  then show ?thesis using assms(3) by (simp add: sys_step_def)
qed

lemma blocked_forever:
  assumes "\<not> reading s" and "\<forall>w\<in>set (workers s). w = []" and "at (main s) = In_Select"
  shows "sys_run sys args oc dc s (a # as) = None"
  using blocked_in_select [OF assms] by simp

lemma blank_round:
  assumes "2 \<le> length (arrays h args)" "args < fresh h" "int k < 2147483647" "0 < w"
  shows "sys_run sys args oc dc (blank_state oc dc args h w k (Suc m)) [Main, Producer 0, Worker 0] =
     Some (blank_state oc dc args h w (Suc k) m)"
proof -
  let ?p = "\<lparr>buffer = [], count = int k,
              emitted = map (\<lambda>j. Send_Job (blank_job oc dc (fresh h + j))) [0..<k],
              mem = after_jobs args k h\<rparr>"
  have a: "arrays (mem ?p) args = arrays h args"
    using assms(2) by (simp add: arrays_after_jobs)
  have f: "fresh (mem ?p) = fresh h + k" by (simp add: fresh_after_jobs)
  have g: "go_int (int k + 1) = int k + 1"
    using assms(3) by (intro go_int_id) auto
  have sub: "submit args oc dc ?p =
     Inr \<lparr>buffer = [], count = int k + 1,
          emitted = emitted ?p @ [Send_Job (blank_job oc dc (fresh h + k))],
          mem = after_jobs args (Suc k) h\<rparr>"
    using assms(1,2) a f g submit_ok [of ?p args oc dc]
    by (simp add: TrimSpace_Nil blank_job_def after_jobs_Suc [of args k h] del: after_jobs.simps)
  have hj: "handle_job sys 0 (blank_job oc dc (fresh h + k)) h' =
      (Skipped, [Send_Int dc 0], h')" for h'
    by (simp add: handle_job_def blank_job_def)
  have g0: "go_int 0 = 0" by (simp add: go_int_def)
  have ws: "(replicate w ([]::effect list))[0 := []] = replicate w []"
    by (cases w) simp_all
  show ?thesis
    using assms(3,4) sub
    by (simp add: blank_state_def sys_step_def producer_step_def worker_step_def collector_init_def
        jobs_sent_append hj g g0 ws del: after_jobs.simps)
qed

lemma blank_rounds:
  assumes "2 \<le> length (arrays h args)" "args < fresh h" "0 < w" "int k + int n \<le> 2147483647"
  shows "sys_run sys args oc dc (blank_state oc dc args h w k (n + m))
       (concat (replicate n [Main, Producer 0, Worker 0])) =
     Some (blank_state oc dc args h w (k + n) m)"
  using assms(4)
proof (induction n arbitrary: k)
  case 0
  then show ?case by simp
next
  case (Suc n)
  have one: "sys_run sys args oc dc (blank_state oc dc args h w k (Suc (n + m))) [Main, Producer 0, Worker 0] =
     Some (blank_state oc dc args h w (Suc k) (n + m))"
    using Suc.prems by (intro blank_round assms) simp
  have rest: "sys_run sys args oc dc (blank_state oc dc args h w (Suc k) (n + m))
       (concat (replicate n [Main, Producer 0, Worker 0])) =
     Some (blank_state oc dc args h w (Suc k + n) m)"
    using Suc.prems by (intro Suc.IH) simp
  have "sys_run sys args oc dc (blank_state oc dc args h w k (Suc n + m))
       ([Main, Producer 0, Worker 0] @ concat (replicate n [Main, Producer 0, Worker 0])) =
     Some (blank_state oc dc args h w (Suc k + n) m)"
    unfolding sys_run_append using one rest by simp
  then show ?case by simp
qed

lemma blank_exit:
  assumes "2147483647 \<le> int k"
  shows "map_option (\<lambda>s. (reading s, at (main s)))
           (sys_run sys args oc dc (blank_state oc dc args h w k m) [Main]) = Some (True, Exited 0)"
  using assms by (simp add: blank_state_def sys_step_def collector_init_def del: after_jobs.simps)

lemma blank_init: "system_init (replicate m (Got LF)) h w = blank_state oc dc args h w 0 m"
  by (simp add: system_init_def blank_state_def producer_init_def collector_init_def)

section \<open>The program can run to its exit\<close>

text \<open>For every input that is read without an error and has fewer than \<open>2\<^sup>3\<^sup>1 - 1\<close> lines, with at
  least one worker and a command on the command line, the run under \<open>schedule\<close> ends in
  \<^verbatim>\<open>os.Exit\<close> after the producer has stored the total: the statements about runs that reach
  the exit are about runs that exist.\<close>

lemma drain_run:
  assumes "at (main s) = At_Test" "0 < length (workers s)" "workers s ! 0 = es"
    "totalCnt (main s) = 2147483647" "0 \<le> doneCnt (main s)" "doneCnt (main s) < 2147483647"
    "0 \<le> errCnt (main s)" "errCnt (main s) \<le> doneCnt (main s)"
    "es = [Send_Int dc v] \<or> (\<exists>nm as line. es = [Spawn nm as, Send_Str oc line, Send_Int dc v])"
    "v = 0 \<or> v = 1"
  shows "\<exists>c'. sys_run sys args oc dc s (drain 0 es) = Some (s\<lparr>workers := (workers s)[0 := []], main := c'\<rparr>) \<and>
          at c' = At_Test \<and> totalCnt c' = totalCnt (main s) \<and>
          doneCnt c' = doneCnt (main s) + 1 \<and> 0 \<le> errCnt c' \<and> errCnt c' \<le> doneCnt c'"
proof -
  have d: "go_int (doneCnt (main s) + 1) = doneCnt (main s) + 1"
    using assms by (intro go_int_id) auto
  have e: "go_int (errCnt (main s) + v) = errCnt (main s) + v"
    using assms by (intro go_int_id) auto
  from assms(9) show ?thesis
  proof
    assume es: "es = [Send_Int dc v]"
    show ?thesis
      using assms(1-8,10) d e unfolding es
      by (auto simp: sys_step_def worker_step_def)
  next
    assume "\<exists>nm as line. es = [Spawn nm as, Send_Str oc line, Send_Int dc v]"
    then obtain nm as line where es: "es = [Spawn nm as, Send_Str oc line, Send_Int dc v]"
      by blast
    show ?thesis
      using assms(1-8,10) d e unfolding es
      by (auto simp: sys_step_def worker_step_def)
  qed
qed


lemma schedule_runs:
  assumes "quiet args s" "\<forall>r\<in>set (stdin s). r \<noteq> Failed"
    "count (prod s) + int (count_list (stdin s) (Got LF)) < 2147483647" "0 \<le> count (prod s)"
  shows "\<exists>s'. sys_run sys args oc dc s (schedule sys args oc dc (stdin s) (prod s)) = Some s' \<and>
           \<not> reading s' \<and> (\<exists>code. at (main s') = Exited code)"
  using assms
proof (induction rs \<equiv> "stdin s" arbitrary: s)
  case Nil
  then have q: "quiet args s" and e: "stdin s = []" by simp_all
  from q e show ?case
    by (auto simp: quiet_def sys_step_def producer_step_def)
next
  case (Cons r rs)
  from Cons.hyps(2) have st: "stdin s = r # rs" by simp
  from Cons.prems(1) have q: "reading s" "\<forall>w\<in>set (workers s). w = []" "0 < length (workers s)"
    "at (main s) = At_Test" "totalCnt (main s) = 2147483647"
    "doneCnt (main s) = count (prod s)" "0 \<le> errCnt (main s)"
    "errCnt (main s) \<le> doneCnt (main s)"
    "2 \<le> length (arrays (mem (prod s)) args)" "args < fresh (mem (prod s))"
    by (auto simp: quiet_def)
  from Cons.prems(2) st obtain c where r: "r = Got c" by (cases r) auto
  show ?case
  proof (cases "c = LF")
    case False
    let ?s1 = "s\<lparr>stdin := rs, prod := (prod s)\<lparr>buffer := buffer (prod s) @ [c]\<rparr>\<rparr>"
    have step: "sys_step sys args oc dc s (Producer 0) = Some ?s1"
      using q st r False by (simp add: sys_step_def producer_step_def)
    have q1: "quiet args ?s1" using Cons.prems(1) by (simp add: quiet_def)
    have "\<exists>s'. sys_run sys args oc dc ?s1 (schedule sys args oc dc (stdin ?s1) (prod ?s1)) = Some s' \<and>
           \<not> reading s' \<and> (\<exists>code. at (main s') = Exited code)"
      using Cons.prems st r False q1 by (intro Cons.hyps(1)) auto
    with step st r False show ?thesis by simp
  next
    case True
    let ?p = "prod s"
    let ?rj = "\<lparr>Arg = Replace_CR (TrimSpace (buffer ?p)), OutChan = oc, DoneChan = dc,
               CmdData = fresh (mem ?p)\<rparr>"
    let ?p1 = "\<lparr>buffer = [], count = go_int (count ?p + 1),
          emitted = emitted ?p @ [Send_Job ?rj], mem = after_jobs args 1 (mem ?p)\<rparr>"
    have sub: "submit args oc dc ?p = Inr ?p1"
      by (rule submit_ok [OF q(9) q(10)])
    have lastj: "last (jobs_sent (emitted ?p1)) = ?rj"
      by (simp add: jobs_sent_append)
    obtain d es h1 where hj: "handle_job sys 0 ?rj (mem ?p1) = (d, es, h1)"
      by (cases "handle_job sys 0 ?rj (mem ?p1)") auto
    have lt: "count ?p + 1 < 2147483647"
      using Cons.prems(3) st r True by simp
    have cnt: "go_int (count ?p + 1) = count ?p + 1"
      using Cons.prems(4) lt by (intro go_int_id) auto
    let ?s1 = "s\<lparr>stdin := rs, prod := ?p1\<lparr>mem := h1\<rparr>, workers := (workers s)[0 := es]\<rparr>"
    have idle: "workers s ! 0 = []" using q(2,3) by simp
    have step: "sys_step sys args oc dc s (Producer 0) = Some ?s1"
      using q(1,3,4) idle st r True sub lastj hj
      by (simp add: sys_step_def producer_step_def del: after_jobs.simps)
    from handle_job_effects [of sys 0 ?rj "mem ?p1"] hj
    obtain v where shape: "es = [Send_Int dc v] \<or>
        (\<exists>nm as line. es = [Spawn nm as, Send_Str oc line, Send_Int dc v])"
      and v: "v = 0 \<or> v = 1"
      by auto
    have "\<exists>c'. sys_run sys args oc dc ?s1 (drain 0 es) =
            Some (?s1\<lparr>workers := (workers ?s1)[0 := []], main := c'\<rparr>) \<and>
          at c' = At_Test \<and> totalCnt c' = totalCnt (main ?s1) \<and>
          doneCnt c' = doneCnt (main ?s1) + 1 \<and> 0 \<le> errCnt c' \<and> errCnt c' \<le> doneCnt c'"
      using q Cons.prems(4) lt shape v by (intro drain_run) auto
    then obtain c' where dr: "sys_run sys args oc dc ?s1 (drain 0 es) =
            Some (?s1\<lparr>workers := (workers ?s1)[0 := []], main := c'\<rparr>)"
      and c': "at c' = At_Test" "totalCnt c' = 2147483647" "doneCnt c' = doneCnt (main s) + 1"
        "0 \<le> errCnt c'" "errCnt c' \<le> doneCnt c'"
      using q(5) by auto
    let ?s2 = "?s1\<lparr>workers := (workers ?s1)[0 := []], main := c'\<rparr>"
    have ne: "args \<noteq> CmdData ?rj" using q(10) by simp
    have ar: "arrays h1 args = arrays (mem ?p1) args"
      using handle_job_frame [OF ne, of sys 0 "mem ?p1"] hj by simp
    have fh: "fresh h1 = fresh (mem ?p1)"
      using handle_job_fresh [of sys 0 ?rj "mem ?p1"] hj by simp
    have a1: "arrays (mem ?p1) args = arrays (mem ?p) args" "fresh (mem ?p1) = Suc (fresh (mem ?p))"
      using q(10) by simp_all
    have ws: "\<forall>w\<in>set (((workers s)[0 := es])[0 := []]). w = []"
      using q(2) by (auto dest!: set_update_subset_insert [THEN subsetD])
    have q2: "quiet args ?s2"
      using q c' cnt ar fh a1 ws by (simp add: quiet_def del: after_jobs.simps)
    have "\<exists>s'. sys_run sys args oc dc ?s2 (schedule sys args oc dc (stdin ?s2) (prod ?s2)) = Some s' \<and>
           \<not> reading s' \<and> (\<exists>code. at (main s') = Exited code)"
    proof (rule Cons.hyps(1))
      show "rs = stdin ?s2" by simp
      show "quiet args ?s2" by (rule q2)
      show "\<forall>r\<in>set (stdin ?s2). r \<noteq> Failed" using Cons.prems(2) st by simp
      show "count (prod ?s2) + int (count_list (stdin ?s2) (Got LF)) < 2147483647"
        using Cons.prems(3) st r True cnt by simp
      show "0 \<le> count (prod ?s2)" using Cons.prems(4) cnt by simp
    qed
    then obtain s' where fin: "sys_run sys args oc dc ?s2 (schedule sys args oc dc rs (?p1\<lparr>mem := h1\<rparr>)) = Some s'"
      and ended: "\<not> reading s'" "\<exists>code. at (main s') = Exited code"
      by auto
    have sched: "schedule sys args oc dc (stdin s) (prod s) =
        Producer 0 # drain 0 es @ schedule sys args oc dc rs (?p1\<lparr>mem := h1\<rparr>)"
      using st r True sub lastj hj by (simp del: after_jobs.simps)
    have "sys_run sys args oc dc s (schedule sys args oc dc (stdin s) (prod s)) = Some s'"
      unfolding sched using step dr fin by (simp add: sys_run_append del: after_jobs.simps)
    with ended show ?thesis by blast
  qed
qed

lemma program_can_finish:
  assumes "\<forall>r\<in>set rs. r \<noteq> Failed" and "2 \<le> length (arrays h args)" and "args < fresh h"
    and "0 < n" and "int (count_list rs (Got LF)) < 2147483647"
  shows "\<exists>s code. sys_run sys args oc dc (system_init rs h n)
             (schedule sys args oc dc rs (producer_init h)) = Some s \<and>
           \<not> reading s \<and> at (main s) = Exited code"
proof -
  let ?s = "system_init rs h n"
  have q: "quiet args ?s"
    using assms(2,3,4) by (simp add: quiet_def system_init_def producer_init_def collector_init_def)
  have "\<exists>s'. sys_run sys args oc dc ?s (schedule sys args oc dc (stdin ?s) (prod ?s)) = Some s' \<and>
           \<not> reading s' \<and> (\<exists>code. at (main s') = Exited code)"
    using assms(1,5) by (intro schedule_runs [OF q]) (simp_all add: system_init_def producer_init_def)
  then show ?thesis by (auto simp: system_init_def)
qed

section \<open>Runs that reach the exit, and the sentinel\<close>

text \<open>In a run on an input of fewer than \<open>2 ^ 63\<close> bytes in which the main goroutine reaches
  \<^verbatim>\<open>os.Exit(errCnt)\<close>, the status is the sum of the values it received on the completion
  channel, which are 0 and 1; when the producer has finished, every job has reported.\<close>

lemma exit_status_of_exiting_run:
  assumes "sys_run sys args oc dc (system_init rs h n) acts = Some s"
    and "int (length rs) < 2 ^ 63" and "at (main s) = Exited code"
  shows "code = sum_list (received (sys_events sys args oc dc (system_init rs h n) acts)) \<and>
         code = int (count_list (received (sys_events sys args oc dc (system_init rs h n) acts)) 1) \<and>
         ((\<forall>v\<in>set (received (sys_events sys args oc dc (system_init rs h n) acts)). v = 0)
            \<longrightarrow> code = 0) \<and>
         (\<not> reading s \<longrightarrow>
            length (received (sys_events sys args oc dc (system_init rs h n) acts)) =
              length (jobs_sent (emitted (prod s))))"
proof -
  let ?evs = "received (sys_events sys args oc dc (system_init rs h n) acts)"
  have invs: "sys_inv dc (int (length rs)) s \<and> count_inv s"
    using sys_run_invs [OF assms(1) sys_inv_init count_inv_init assms(2)] .
  have cnt: "errCnt (main s) = errCnt (main (system_init rs h n)) + sum_list ?evs \<and>
      doneCnt (main s) = doneCnt (main (system_init rs h n)) + int (length ?evs) \<and>
      (\<forall>v\<in>set ?evs. v = 0 \<or> v = 1)"
    using sys_run_errCnt [OF assms(1) sys_inv_init assms(2) err_inv_init] .
  then have e: "errCnt (main s) = sum_list ?evs" and d: "doneCnt (main s) = int (length ?evs)"
    and v: "\<forall>v\<in>set ?evs. v = 0 \<or> v = 1"
    by (simp_all add: system_init_def collector_init_def)
  from invs assms(3) have c: "code = errCnt (main s)" and dt: "doneCnt (main s) = totalCnt (main s)"
    by (auto simp: count_inv_def sys_inv_def)
  from invs have t: "\<not> reading s \<longrightarrow> totalCnt (main s) = int (length (jobs_sent (emitted (prod s))))"
    by (auto simp: sys_inv_def)
  have "code = sum_list ?evs" using c e by simp
  moreover have "sum_list ?evs = int (count_list ?evs 1)" using v by (rule sum_list_01)
  moreover have "(\<forall>v\<in>set ?evs. v = 0) \<longrightarrow> sum_list ?evs = 0" by (simp add: sum_list_zeros)
  moreover have "\<not> reading s \<longrightarrow> length ?evs = length (jobs_sent (emitted (prod s)))"
    using d dt t by simp
  ultimately show ?thesis by simp
qed

text \<open>In every state the program reaches, \<^verbatim>\<open>doneCnt\<close> exceeds neither \<^verbatim>\<open>totalCnt\<close> nor the
  number of jobs created so far; \<^verbatim>\<open>totalCnt\<close> is the sentinel until the producer has stored
  the total and the number of jobs afterwards; and the loop has been left only with
  \<^verbatim>\<open>doneCnt\<close> equal to \<^verbatim>\<open>totalCnt\<close>.\<close>

lemma collector_counts:
  assumes "sys_run sys args oc dc (system_init rs h n) acts = Some s"
    and "int (length rs) < 2 ^ 63"
  shows "doneCnt (main s) \<le> totalCnt (main s) \<and>
         doneCnt (main s) \<le> int (length (jobs_sent (emitted (prod s)))) \<and>
         (reading s \<longrightarrow> totalCnt (main s) = 2147483647) \<and>
         (\<not> reading s \<longrightarrow> totalCnt (main s) = int (length (jobs_sent (emitted (prod s))))) \<and>
         (\<forall>code. at (main s) = Exited code \<longrightarrow>
            doneCnt (main s) = totalCnt (main s) \<and> code = errCnt (main s))"
proof -
  have "sys_inv dc (int (length rs)) s \<and> count_inv s"
    using sys_run_invs [OF assms(1) sys_inv_init count_inv_init assms(2)] .
  then show ?thesis
    unfolding sys_inv_def count_inv_def by auto
qed

text \<open>The sentinel is \<open>2 ^ 31 - 1\<close>. On an input of \<open>2 ^ 31\<close> line feeds, after that many blank
  lines have been answered the main goroutine leaves its loop with status 0 while the
  producer is still reading.\<close>

lemma sentinel_reached_while_reading:
  "map_option (\<lambda>s. (reading s, at (main s)))
     (sys_run example_sys 0 (Chan 0) (Chan 1)
        (system_init (replicate (2147483647 + 1) (Got LF)) example_store 2)
        (concat (replicate 2147483647 [Main, Producer 0, Worker 0]) @ [Main]))
   = Some (True, Exited 0)"
proof -
  have h1: "2 \<le> length (arrays example_store 0)" by (simp add: example_store_facts)
  have h2: "0 < fresh example_store" by (simp add: example_store_facts)
  have h3: "0 < (2::nat)" by simp
  have h4: "int 0 + int 2147483647 \<le> 2147483647" by simp
  note rounds = blank_rounds [where h = example_store and args = 0 and k = 0 and n = 2147483647
      and m = 1 and w = 2 and sys = example_sys and oc = "Chan 0" and dc = "Chan 1",
      OF h1 h2 h3 h4]
  note init = blank_init [where m = "2147483647 + 1" and h = example_store and w = 2
      and oc = "Chan 0" and dc = "Chan 1" and args = 0]
  have last: "map_option (\<lambda>s. (reading s, at (main s)))
      (sys_run example_sys 0 (Chan 0) (Chan 1)
         (blank_state (Chan 0) (Chan 1) 0 example_store 2 (0 + 2147483647) 1) [Main])
      = Some (True, Exited 0)"
    by (rule blank_exit) simp
  show ?thesis
    unfolding init sys_run_append rounds option.case by (rule last)
qed

section \<open>The claims\<close>

text \<open>
  Claim C1. For every job with a non-empty argument and a non-empty command template, the
  worker replaces every token of its copy of the template that is exactly \<open>{}\<close> by the
  job's argument and leaves every other token, also one that merely contains \<open>{}\<close>,
  unchanged; the substituted command is the one it starts.
\<close>

theorem placeholder_substitution:
  assumes "Arg job \<noteq> []" and "arrays h (CmdData job) \<noteq> []"
  shows "let cmd = map (\<lambda>tok. if tok = ''{}'' then Arg job else tok) (arrays h (CmdData job))
         in \<exists>line val. handle_job sys wid job h =
              (Ran Return_End,
               [Spawn (cmd ! 0) (drop 1 cmd), Send_Str (OutChan job) line, Send_Int (DoneChan job) val],
               h\<lparr>arrays := (arrays h)(CmdData job := cmd)\<rparr>)"
  using assms
  by (auto simp: handle_job_executes subst_tokens_def Let_def split: prod.splits option.splits)

theorem placeholder_substitution_witness:
  "Arg (example_job ''x'' 2) \<noteq> [] \<and> arrays example_store (CmdData (example_job ''x'' 2)) \<noteq> [] \<and>
   (\<exists>line val. handle_job example_sys 3 (example_job ''x'' 2) example_store =
      (Ran Return_End,
       [Spawn ''cp'' [''x'', ''a{}b'', ''x''], Send_Str (Chan 0) line, Send_Int (Chan 1) val],
       example_store\<lparr>arrays := (arrays example_store)(2 := [''cp'', ''x'', ''a{}b'', ''x''])\<rparr>))"
proof -
  have h1: "Arg (example_job ''x'' 2) \<noteq> []" by (simp add: example_job_facts)
  have h2: "arrays example_store (CmdData (example_job ''x'' 2)) \<noteq> []"
    by (simp add: example_job_facts example_store_facts)
  from placeholder_substitution [OF h1 h2, of example_sys 3] h1 h2
  show ?thesis by (simp add: example_job_facts example_store_facts Let_def)
qed

text \<open>
  Claim C2 does not hold of the code. The input is the two lines \<open>x\<close> and the empty line,
  the command \<^verbatim>\<open>false {}\<close>, two workers: the first job fails, the second is answered with 0.
  When the main goroutine tests its loop condition after the second completion and before
  the producer stores the total (line 143), it waits in its \<^verbatim>\<open>select\<close> with
  \<^verbatim>\<open>errCnt = 1\<close> and \<^verbatim>\<open>doneCnt = totalCnt = 2\<close>; the producer has returned, both workers
  wait for a job, and no goroutine can take another step: \<^verbatim>\<open>os.Exit(errCnt)\<close> is never
  reached. When the store comes before the test, the same input ends with status 1, the
  number of failed jobs, as the comment at line 92 says.
\<close>

theorem exit_status_lost_when_blocked:
  "(\<exists>s. sys_run example_sys 0 (Chan 0) (Chan 1)
          (system_init (map Got [CHR ''x'', LF, LF]) failing_store 2)
          [Main, Producer 0, Producer 0, Worker 0, Worker 0, Main, Worker 0, Main, Producer 1,
           Worker 1, Main, Producer 0] = Some s \<and>
        \<not> reading s \<and> stdin s = [] \<and> workers s = [[], []] \<and>
        errCnt (main s) = 1 \<and> doneCnt (main s) = 2 \<and> totalCnt (main s) = 2 \<and>
        at (main s) = In_Select \<and>
        (\<forall>a as. sys_run example_sys 0 (Chan 0) (Chan 1) s (a # as) = None)) \<and>
   map_option (\<lambda>s. at (main s))
     (sys_run example_sys 0 (Chan 0) (Chan 1)
        (system_init (map Got [CHR ''x'', LF, LF]) failing_store 2)
        [Main, Producer 0, Producer 0, Worker 0, Worker 0, Main, Worker 0, Main, Producer 1,
         Worker 1, Producer 0, Main]) = Some (Exited 1)"
proof -
  let ?run = "sys_run example_sys 0 (Chan 0) (Chan 1)
          (system_init (map Got [CHR ''x'', LF, LF]) failing_store 2)
          [Main, Producer 0, Producer 0, Worker 0, Worker 0, Main, Worker 0, Main, Producer 1,
           Worker 1, Main, Producer 0]"
  have "map_option (\<lambda>s. (reading s, stdin s, workers s, errCnt (main s), doneCnt (main s),
           totalCnt (main s), at (main s))) ?run = Some (False, [], [[], []], 1, 2, 2, In_Select)"
    by code_simp
  then obtain s where run: "?run = Some s" and s: "\<not> reading s" "stdin s = []"
      "workers s = [[], []]" "errCnt (main s) = 1" "doneCnt (main s) = 2" "totalCnt (main s) = 2"
      "at (main s) = In_Select"
    by auto
  have idle: "\<forall>w\<in>set (workers s). w = []" using s(3) by simp
  have stuck: "\<forall>a as. sys_run example_sys 0 (Chan 0) (Chan 1) s (a # as) = None"
    using blocked_forever [OF s(1) idle s(7)] by simp
  have exits: "map_option (\<lambda>s. at (main s))
     (sys_run example_sys 0 (Chan 0) (Chan 1)
        (system_init (map Got [CHR ''x'', LF, LF]) failing_store 2)
        [Main, Producer 0, Producer 0, Worker 0, Worker 0, Main, Worker 0, Main, Producer 1,
         Worker 1, Producer 0, Main]) = Some (Exited 1)"
    by code_simp
  from run s stuck exits show ?thesis by blast
qed

text \<open>
  Claim C3. Every byte stream is a sequence of complete lines \<open>ls\<close>, each ended by a line
  feed, followed by a remainder without line feed (\<open>stream_decompose\<close>). On such an input
  the producer returns, having sent exactly one job per line, in order, as many as the
  input has line feeds, and none for the remainder; its last act is to store the number
  of jobs in the shared total count, the only store to it. (\<^verbatim>\<open>main\<close> guarantees the
  elements of \<^verbatim>\<open>os.Args\<close> assumed here; fewer than \<open>2 ^ 63\<close> lines keep \<^verbatim>\<open>count\<close> from
  wrapping.)
\<close>

theorem one_job_per_line:
  assumes "2 \<le> length (arrays h args)" and "args < fresh h"
    and "\<forall>l\<in>set ls. LF \<notin> set l" and "LF \<notin> set rest" and "int (length ls) < 2 ^ 63"
  shows "producer_trace args oc dc (map Got (stream_of ls rest)) h =
           Some (map Send_Job (expected_jobs oc dc (fresh h) ls) @ [Store_Total (int (length ls))]) \<and>
         length (jobs_of_input args oc dc (map Got (stream_of ls rest)) h) = length ls \<and>
         length ls = count_list (stream_of ls rest) LF \<and>
         map_option totals_stored (producer_trace args oc dc (map Got (stream_of ls rest)) h) =
           Some [int (length ls)]"
  using assms
  by (simp add: producer_trace_def jobs_of_input_def readInput_stream_init length_expected_jobs
      jobs_sent_append jobs_sent_map count_stream_of totals_stored_append totals_stored_map)

theorem one_job_per_line_witness:
  "producer_trace 0 (Chan 0) (Chan 1)
     (map Got (stream_of [''a'', [CHR '' '', CHR ''b'', CHR '' '', CR]] ''tail'')) example_store =
     Some [Send_Job \<lparr>Arg = ''a'', OutChan = Chan 0, DoneChan = Chan 1, CmdData = 4\<rparr>,
           Send_Job \<lparr>Arg = ''b'', OutChan = Chan 0, DoneChan = Chan 1, CmdData = 5\<rparr>,
           Store_Total 2]"
proof -
  have h1: "2 \<le> length (arrays example_store 0)" by (simp add: example_store_facts)
  have h2: "0 < fresh example_store" by (simp add: example_store_facts)
  have h3: "\<forall>l\<in>set [''a'', [CHR '' '', CHR ''b'', CHR '' '', CR]]. LF \<notin> set l" by simp
  have h4: "LF \<notin> set ''tail''" by simp
  have h5: "int (length [''a'', [CHR '' '', CHR ''b'', CHR '' '', CR]]) < 2 ^ 63" by simp
  from one_job_per_line [OF h1 h2 h3 h4 h5, of "Chan 0" "Chan 1"]
  show ?thesis by (simp add: example_store_facts example_trims)
qed

text \<open>
  Claim C4 as stated fails: with the line \<open>a\<close>, carriage return, \<open>b\<close> the job's argument is \<open>ab\<close>, whereas the
  line with a trailing carriage return stripped and the white space trimmed still has the carriage return.
\<close>

theorem job_argument_counterexample:
  "map Arg (jobs_of_input 0 (Chan 0) (Chan 1) (map Got [CHR ''a'', CR, CHR ''b'', LF]) example_store)
     = [''ab''] \<and>
   spec_argument [CHR ''a'', CR, CHR ''b''] = [CHR ''a'', CR, CHR ''b'']"
  by code_simp

text \<open>
  Claim C4, amended. For every input line the job's argument is that line with a trailing
  carriage return stripped and leading and trailing white space trimmed (which is the
  trimmed line), and with every carriage return that remains deleted: those in the
  interior of the line are not part of the argument.
\<close>

theorem job_argument:
  assumes "2 \<le> length (arrays h args)" and "args < fresh h"
    and "\<forall>l\<in>set ls. LF \<notin> set l" and "LF \<notin> set rest" and "int (length ls) < 2 ^ 63"
  shows "map Arg (jobs_of_input args oc dc (map Got (stream_of ls rest)) h) =
           map (\<lambda>l. filter (\<lambda>c. c \<noteq> CR) (spec_argument l)) ls \<and>
         map Arg (jobs_of_input args oc dc (map Got (stream_of ls rest)) h) =
           map (\<lambda>l. filter (\<lambda>c. c \<noteq> CR) (TrimSpace l)) ls"
  using assms
  by (simp add: jobs_of_input_def readInput_stream_init jobs_sent_append jobs_sent_map
      Arg_expected_jobs Replace_CR_def spec_argument_TrimSpace)

theorem job_argument_witness:
  "map Arg (jobs_of_input 0 (Chan 0) (Chan 1)
      (map Got (stream_of [[CHR ''a'', CR, CHR ''b''], [CHR '' '', CHR ''c'', CHR '' '', CR]] ''tail''))
      example_store)
     = [''ab'', ''c'']"
proof -
  have h1: "2 \<le> length (arrays example_store 0)" by (simp add: example_store_facts)
  have h2: "0 < fresh example_store" by (simp add: example_store_facts)
  have h3: "\<forall>l\<in>set [[CHR ''a'', CR, CHR ''b''], [CHR '' '', CHR ''c'', CHR '' '', CR]]. LF \<notin> set l"
    by simp
  have h4: "LF \<notin> set ''tail''" by simp
  have h5: "int (length [[CHR ''a'', CR, CHR ''b''], [CHR '' '', CHR ''c'', CHR '' '', CR]]) < 2 ^ 63"
    by simp
  from job_argument [OF h1 h2 h3 h4 h5, of "Chan 0" "Chan 1"]
  have "map Arg (jobs_of_input 0 (Chan 0) (Chan 1)
      (map Got (stream_of [[CHR ''a'', CR, CHR ''b''], [CHR '' '', CHR ''c'', CHR '' '', CR]] ''tail''))
      example_store) =
    map (\<lambda>l. filter (\<lambda>c. c \<noteq> CR) (TrimSpace l))
      [[CHR ''a'', CR, CHR ''b''], [CHR '' '', CHR ''c'', CHR '' '', CR]]"
    by (rule conjunct2)
  then show ?thesis by (simp only: example_arguments)
qed

text \<open>
  Claim C5 as stated fails: for a job with an empty argument the worker sends the completion
  signal and no output message.
\<close>

theorem signals_per_job_counterexample:
  "handle_job example_sys 0 (example_job [] 2) example_store
        = (Skipped, [Send_Int (Chan 1) 0], example_store)
   \<and> outputs (Chan 0) (fst (snd (handle_job example_sys 0 (example_job [] 2) example_store))) = 0"
  by (simp add: handle_job_def example_job_def)

text \<open>
  Claim C5, amended. For every job that reaches a worker exactly one completion signal is
  sent on the job's completion channel; exactly one output message is sent on its output
  channel when the argument and the command template are both non-empty, and none
  otherwise.
\<close>

theorem signals_per_job:
  "completions (DoneChan job) (fst (snd (handle_job sys wid job h))) = 1 \<and>
   outputs (OutChan job) (fst (snd (handle_job sys wid job h))) =
     (if Arg job = [] \<or> arrays h (CmdData job) = [] then 0 else 1)"
  using handle_job_effects [of sys wid job h] by auto

theorem signals_per_job_witness:
  "completions (Chan 1) (fst (snd (handle_job example_sys 3 (example_job ''x'' 2) example_store))) = 1 \<and>
   outputs (Chan 0) (fst (snd (handle_job example_sys 3 (example_job ''x'' 2) example_store))) = 1 \<and>
   completions (Chan 1) (fst (snd (handle_job example_sys 3 (example_job [] 2) example_store))) = 1 \<and>
   outputs (Chan 0) (fst (snd (handle_job example_sys 3 (example_job [] 2) example_store))) = 0"
  using signals_per_job [of "example_job ''x'' 2" example_sys 3 example_store]
    signals_per_job [of "example_job [] 2" example_sys 3 example_store]
  by (simp add: example_job_facts example_store_facts)

text \<open>
  Claim C6. When the subprocess of a job fails, the worker sends the line
  \<open>[id] command: error\<close> with its id, the substituted command line and the error text on
  the output channel, then 1 on the completion channel, and goes on with the jobs that
  follow.
\<close>

theorem failure_reported:
  assumes "Arg job \<noteq> []" and "arrays h (CmdData job) \<noteq> []"
    and "cmd = map (\<lambda>tok. if tok = ''{}'' then Arg job else tok) (arrays h (CmdData job))"
    and "sys (cmd ! 0) (drop 1 cmd) = (out, Some e)"
  shows "runWorker sys wid (job # jobs) h =
     (case runWorker sys wid jobs (h\<lparr>arrays := (arrays h)(CmdData job := cmd)\<rparr>) of
        (ds, es, h2) \<Rightarrow>
          (Ran Return_End # ds,
           [Spawn (cmd ! 0) (drop 1 cmd),
            Send_Str (OutChan job)
              (''['' @ format_int wid @ ''] '' @ argsToStr cmd @ '': '' @ e @ [LF]),
            Send_Int (DoneChan job) 1] @ es,
           h2))"
  using assms
  by (simp add: handle_job_executes subst_tokens_def format_line_def Let_def split: prod.splits)

theorem failure_reported_witness:
  "runWorker example_sys 3 [example_job ''x'' 3, example_job [] 2] example_store =
     ([Ran Return_End, Skipped],
      [Spawn ''false'' [''x''],
       Send_Str (Chan 0) (''[3] false x: exit status 1'' @ [LF]),
       Send_Int (Chan 1) 1,
       Send_Int (Chan 1) 0],
      example_store\<lparr>arrays := (arrays example_store)(3 := [''false'', ''x''])\<rparr>)"
proof -
  have h1: "Arg (example_job ''x'' 3) \<noteq> []" by (simp add: example_job_facts)
  have h2: "arrays example_store (CmdData (example_job ''x'' 3)) \<noteq> []"
    by (simp add: example_job_facts example_store_facts)
  have h3: "[''false'', ''x''] = map (\<lambda>tok. if tok = ''{}'' then Arg (example_job ''x'' 3) else tok)
      (arrays example_store (CmdData (example_job ''x'' 3)))"
    by (simp add: example_job_facts example_store_facts)
  have h4: "example_sys ([''false'', ''x''] ! 0) (drop 1 [''false'', ''x'']) = ([], Some ''exit status 1'')"
    by (simp add: example_sys_def)
  have rest: "runWorker example_sys 3 [example_job [] 2]
      (example_store\<lparr>arrays := (arrays example_store)(3 := [''false'', ''x''])\<rparr>) =
      ([Skipped], [Send_Int (Chan 1) 0],
       example_store\<lparr>arrays := (arrays example_store)(3 := [''false'', ''x''])\<rparr>)"
    by (simp add: handle_job_def example_job_facts)
  note step = failure_reported [of "example_job ''x'' 3" example_store "[''false'', ''x'']" example_sys
      "[]" "''exit status 1''" 3 "[example_job [] 2]", OF h1 h2 h3 h4]
  show ?thesis
    unfolding step example_error_line example_job_facts rest by simp
qed

text \<open>
  Claim C7. For a job whose argument is empty and for a job whose command template has no
  token, the worker sends 0 on the completion channel and does nothing else: no
  subprocess, no output message, no change of the store.
\<close>

theorem noop_jobs:
  assumes "Arg job = [] \<or> arrays h (CmdData job) = []"
  shows "snd (handle_job sys wid job h) = ([Send_Int (DoneChan job) 0], h) \<and>
         spawns (fst (snd (handle_job sys wid job h))) = 0 \<and>
         outputs ch (fst (snd (handle_job sys wid job h))) = 0"
  using assms by (auto simp: handle_job_def run_def)

theorem noop_jobs_witness:
  "(Arg (example_job [] 2) = [] \<or> arrays example_store (CmdData (example_job [] 2)) = []) \<and>
   snd (handle_job example_sys 3 (example_job [] 2) example_store)
     = ([Send_Int (Chan 1) 0], example_store) \<and>
   (Arg (example_job ''x'' 7) = [] \<or> arrays example_store (CmdData (example_job ''x'' 7)) = []) \<and>
   snd (handle_job example_sys 3 (example_job ''x'' 7) example_store)
     = ([Send_Int (Chan 1) 0], example_store)"
  using noop_jobs [of "example_job [] 2" example_store example_sys 3]
    noop_jobs [of "example_job ''x'' 7" example_store example_sys 3]
  by (simp add: example_job_facts example_store_facts)

text \<open>
  Claim C8. The array of \<^verbatim>\<open>os.Args\<close> is never written: the producer leaves it as it was
  and gives every job an array of its own, different from that of \<^verbatim>\<open>os.Args\<close> and from
  every other job's, holding a copy of \<^verbatim>\<open>os.Args[2:]\<close>; a worker handling a job writes
  to no array but the job's own, in whatever store it runs; and in every state the whole
  program reaches, under any interleaving, \<^verbatim>\<open>os.Args\<close> holds what it held at the start.
\<close>

theorem template_never_mutated:
  assumes "readInput args oc dc rs (producer_init h) = Inr p" and "args < fresh h"
  shows "arrays (mem p) args = arrays h args \<and>
         distinct (map CmdData (jobs_sent (emitted p))) \<and>
         (\<forall>job\<in>set (jobs_sent (emitted p)).
            CmdData job \<noteq> args \<and>
            arrays (mem p) (CmdData job) = drop 2 (arrays h args) \<and>
            (\<forall>sys wid h' a. a \<noteq> CmdData job \<longrightarrow>
               arrays (snd (snd (handle_job sys wid job h'))) a = arrays h' a)) \<and>
         (\<forall>sys wid. arrays (snd (snd (runWorker sys wid (jobs_sent (emitted p)) (mem p)))) args
            = arrays h args) \<and>
         (\<forall>sys n acts s. sys_run sys args oc dc (system_init rs h n) acts = Some s \<longrightarrow>
            arrays (mem (prod s)) args = arrays h args)"
proof -
  from readInput_allocates [OF assms(1)] assms(2)
  obtain js where js: "emitted p = map Send_Job js @ [Store_Total (count p)]"
      "map CmdData js = [fresh h ..< fresh (mem p)]"
      "\<forall>a. arrays (mem p) a =
                 (if fresh h \<le> a \<and> a < fresh (mem p) then drop 2 (arrays h args)
                  else arrays h a)"
    by (auto simp: producer_init_def)
  have sent: "jobs_sent (emitted p) = js"
    by (simp add: js(1) jobs_sent_append jobs_sent_map)
  have keep: "arrays (mem p) args = arrays h args"
    using js(3) assms(2) by simp
  have dist: "distinct (map CmdData js)"
    by (simp add: js(2))
  have own: "\<forall>job\<in>set js. fresh h \<le> CmdData job \<and> CmdData job < fresh (mem p)"
  proof
    fix job assume "job \<in> set js"
    then have "CmdData job \<in> set (map CmdData js)" by simp
    then show "fresh h \<le> CmdData job \<and> CmdData job < fresh (mem p)"
      unfolding js(2) by simp
  qed
  have ne: "\<forall>job\<in>set js. CmdData job \<noteq> args"
    using own assms(2) by auto
  have copy: "\<forall>job\<in>set js. arrays (mem p) (CmdData job) = drop 2 (arrays h args)"
    using own js(3) by simp
  have run: "\<forall>sys wid. arrays (snd (snd (runWorker sys wid js (mem p)))) args = arrays h args"
    using runWorker_frame [OF ne] keep by simp
  have whole: "\<forall>sys n acts s. sys_run sys args oc dc (system_init rs h n) acts = Some s \<longrightarrow>
            arrays (mem (prod s)) args = arrays h args"
  proof (intro allI impI)
    fix sys n acts s
    assume r: "sys_run sys args oc dc (system_init rs h n) acts = Some s"
    have "args < fresh (mem (prod (system_init rs h n)))"
      using assms(2) by (simp add: system_init_def producer_init_def)
    from sys_run_args [OF r this] show "arrays (mem (prod s)) args = arrays h args"
      by (simp add: system_init_def producer_init_def)
  qed
  show ?thesis
    unfolding sent using keep dist ne copy run whole handle_job_frame by blast
qed

theorem template_never_mutated_witness:
  "arrays (after_jobs 0 1 example_store) 0 = [''prun'', ''2'', ''cp'', ''{}'', ''a{}b'', ''{}''] \<and>
   arrays (after_jobs 0 1 example_store) 4 = [''cp'', ''{}'', ''a{}b'', ''{}''] \<and>
   arrays (snd (snd (handle_job example_sys 1
        \<lparr>Arg = ''x'', OutChan = Chan 0, DoneChan = Chan 1, CmdData = 4\<rparr>
        (after_jobs 0 1 example_store)))) 0 = [''prun'', ''2'', ''cp'', ''{}'', ''a{}b'', ''{}''] \<and>
   arrays (snd (snd (handle_job example_sys 1
        \<lparr>Arg = ''x'', OutChan = Chan 0, DoneChan = Chan 1, CmdData = 4\<rparr>
        (after_jobs 0 1 example_store)))) 4 = [''cp'', ''x'', ''a{}b'', ''x''] \<and>
   (\<exists>s. sys_run example_sys 0 (Chan 0) (Chan 1)
          (system_init (map Got (stream_of [''x''] [])) example_store 2)
          [Producer 0, Producer 0, Worker 0, Main, Worker 0, Producer 1, Main, Worker 0, Main]
        = Some s \<and>
        arrays (mem (prod s)) 0 = [''prun'', ''2'', ''cp'', ''{}'', ''a{}b'', ''{}''])"
proof -
  let ?job = "\<lparr>Arg = ''x'', OutChan = Chan 0, DoneChan = Chan 1, CmdData = 4\<rparr>"
  let ?p = "\<lparr>buffer = [], count = 1, emitted = [Send_Job ?job, Store_Total 1],
            mem = after_jobs 0 1 example_store\<rparr>"
  have h1: "2 \<le> length (arrays example_store 0)" by (simp add: example_store_facts)
  have h2: "0 < fresh example_store" by (simp add: example_store_facts)
  have tr: "Replace_CR (TrimSpace ''x'') = ''x''" by code_simp
  have "readInput 0 (Chan 0) (Chan 1) (map Got (stream_of [''x''] [])) (producer_init example_store) =
     Inr \<lparr>buffer = [], count = int (length [''x'']),
          emitted = map Send_Job (expected_jobs (Chan 0) (Chan 1) (fresh example_store) [''x''])
             @ [Store_Total (int (length [''x'']))],
          mem = after_jobs 0 (length [''x'']) example_store\<rparr>"
    using h1 h2 by (intro readInput_stream_init) simp_all
  then have run: "readInput 0 (Chan 0) (Chan 1) (map Got (stream_of [''x''] [])) (producer_init example_store)
      = Inr ?p"
    by (simp add: example_store_facts tr)
  have sent: "jobs_sent (emitted ?p) = [?job]" by simp
  let ?sys_run = "sys_run example_sys 0 (Chan 0) (Chan 1)
          (system_init (map Got (stream_of [''x''] [])) example_store 2)
          [Producer 0, Producer 0, Worker 0, Main, Worker 0, Producer 1, Main, Worker 0, Main]"
  have "map_option (\<lambda>s. at (main s)) ?sys_run = Some (Exited 0)"
    by code_simp
  then obtain s where srun: "?sys_run = Some s" by auto
  from template_never_mutated [OF run h2] srun
  have e: "arrays (mem (prod s)) 0 = arrays example_store 0" by blast
  from template_never_mutated [OF run h2]
  have "arrays (mem ?p) 0 = arrays example_store 0"
    and "\<forall>job\<in>set (jobs_sent (emitted ?p)).
            CmdData job \<noteq> 0 \<and>
            arrays (mem ?p) (CmdData job) = drop 2 (arrays example_store 0) \<and>
            (\<forall>sys wid h' a. a \<noteq> CmdData job \<longrightarrow>
               arrays (snd (snd (handle_job sys wid job h'))) a = arrays h' a)"
    by blast+
  then have a: "arrays (mem ?p) 0 = arrays example_store 0"
    and b: "arrays (mem ?p) 4 = drop 2 (arrays example_store 0)"
    and c: "arrays (snd (snd (handle_job example_sys 1 ?job (mem ?p)))) 0 = arrays (mem ?p) 0"
    unfolding sent by auto
  have d: "arrays (snd (snd (handle_job example_sys 1 ?job (mem ?p)))) 4 = [''cp'', ''x'', ''a{}b'', ''x'']"
    using b by (simp add: handle_job_executes subst_tokens_def Let_def example_store_facts
        split: prod.splits option.splits)
  from a b c d e srun show ?thesis by (simp add: example_store_facts)
qed

text \<open>
  Claim C9 does not hold of the code. On the empty input, whatever the command and the
  number of workers, the main goroutine can test its loop condition against the sentinel
  before the producer stores the total 0. It then waits in its \<^verbatim>\<open>select\<close> with
  \<^verbatim>\<open>doneCnt = totalCnt = 0\<close>; the producer has returned, every worker waits for a job, and
  no goroutine can take another step: the loop does not end although \<^verbatim>\<open>doneCnt\<close> has reached
  \<^verbatim>\<open>totalCnt\<close>.
\<close>

theorem loop_blocked_at_total:
  "\<exists>s. sys_run sys args oc dc (system_init [] h n) [Main, Producer i] = Some s \<and>
       \<not> reading s \<and> stdin s = [] \<and> workers s = replicate n [] \<and>
       doneCnt (main s) = 0 \<and> totalCnt (main s) = 0 \<and> at (main s) = In_Select \<and>
       (\<forall>a as. sys_run sys args oc dc s (a # as) = None)"
proof -
  let ?s = "\<lparr>stdin = [], prod = (producer_init h)\<lparr>emitted := [Store_Total 0]\<rparr>, reading = False,
             workers = replicate n [], main = collector_init\<lparr>at := In_Select, totalCnt := 0\<rparr>\<rparr>"
  have run: "sys_run sys args oc dc (system_init [] h n) [Main, Producer i] = Some ?s"
    by (simp add: system_init_def sys_step_def producer_step_def collector_init_def producer_init_def)
  have stuck: "sys_run sys args oc dc ?s (a # as) = None" for a as
    by (rule blocked_forever) simp_all
  have facts: "\<not> reading ?s" "stdin ?s = []" "workers ?s = replicate n []"
      "doneCnt (main ?s) = 0" "totalCnt (main ?s) = 0" "at (main ?s) = In_Select"
    by (simp_all add: collector_init_def)
  from run facts stuck show ?thesis by blast
qed

text \<open>
  Claim C10. In the worker loop \<^verbatim>\<open>run\<close> is called exactly for the jobs with a non-empty
  argument, the others are answered by the loop itself, and no call of \<^verbatim>\<open>run\<close> returns
  at its own empty-argument check (line 188).
\<close>

theorem empty_argument_branch_unreachable:
  assumes "runWorker sys wid jobs h = (ds, es, h')"
  shows "length ds = length jobs \<and>
         (\<forall>i<length jobs. (ds ! i = Skipped \<longleftrightarrow> Arg (jobs ! i) = []) \<and> ds ! i \<noteq> Ran Return_NoArg)"
  using assms by (rule runWorker_handled)

theorem empty_argument_branch_unreachable_witness:
  "length (fst (runWorker example_sys 3
       [example_job [] 2, example_job ''x'' 7, example_job ''x'' 3] example_store)) = 3 \<and>
   fst (runWorker example_sys 3
       [example_job [] 2, example_job ''x'' 7, example_job ''x'' 3] example_store) ! 0 = Skipped \<and>
   fst (runWorker example_sys 3
       [example_job [] 2, example_job ''x'' 7, example_job ''x'' 3] example_store) ! 1
     \<noteq> Ran Return_NoArg \<and>
   fst (runWorker example_sys 3
       [example_job [] 2, example_job ''x'' 7, example_job ''x'' 3] example_store) ! 2
     \<noteq> Ran Return_NoArg"
proof -
  let ?jobs = "[example_job [] 2, example_job ''x'' 7, example_job ''x'' 3]"
  let ?r = "runWorker example_sys 3 ?jobs example_store"
  have r: "?r = (fst ?r, fst (snd ?r), snd (snd ?r))" by simp
  from empty_argument_branch_unreachable [OF r]
  have len: "length (fst ?r) = length ?jobs"
    and all: "\<forall>i<length ?jobs. (fst ?r ! i = Skipped \<longleftrightarrow> Arg (?jobs ! i) = []) \<and>
        fst ?r ! i \<noteq> Ran Return_NoArg"
    by blast+
  have l3: "length ?jobs = 3" by simp
  from all l3 have "(fst ?r ! 0 = Skipped \<longleftrightarrow> Arg (?jobs ! 0) = [])"
    "fst ?r ! 1 \<noteq> Ran Return_NoArg" "fst ?r ! 2 \<noteq> Ran Return_NoArg"
    by auto
  moreover have "Arg (?jobs ! 0) = []" by (simp add: example_job_facts)
  ultimately show ?thesis using len l3 by simp
qed

end
